theory Spec2Isabelle
  imports Main "HOL-Library.Sublist"
begin

section \<open>The rate limiter of the CanLII server\<close>

text \<open>
  The limiter of \<^verbatim>\<open>src/index.ts\<close> (lines 26 to 60; the line numbers below are those of
  this file) and the function \<^verbatim>\<open>canliiRequest\<close> (lines 66 to 86). The file
  \<^verbatim>\<open>server.ts\<close> of the worker has the same code, with the key of the API as the first
  argument of \<^verbatim>\<open>canliiRequest\<close>.

  The module keeps five variables at module scope (\<^verbatim>\<open>dailyCount\<close>,
  \<^verbatim>\<open>dailyResetDate\<close>, \<^verbatim>\<open>lastRequestTime\<close>, \<^verbatim>\<open>inFlight\<close>,
  \<^verbatim>\<open>queue\<close>). They are the fields of one record. An entry of the queue is the pair of
  closures of a promise; it is identified by the invocation of \<^verbatim>\<open>canliiRequest\<close> that
  awaits this promise, a number.
\<close>

type_synonym caller = nat

record governor =
  dailyCount :: nat
  dailyResetDate :: string
  lastRequestTime :: int
  inFlight :: bool
  queue :: "caller list"

text \<open>
  \<^verbatim>\<open>resetDailyIfNeeded\<close>: the argument is what \<^verbatim>\<open>new Date().toDateString()\<close>
  returns at the call.
\<close>

definition resetDailyIfNeeded :: "string \<Rightarrow> governor \<Rightarrow> governor" where
  "resetDailyIfNeeded today g =
     (if today \<noteq> dailyResetDate g then g\<lparr>dailyCount := 0, dailyResetDate := today\<rparr> else g)"

definition quota_message :: string where
  "quota_message = ''CanLII daily API limit (5 000 requests) reached''"

text \<open>
  \<^verbatim>\<open>acquireSlot\<close> runs in pieces: JavaScript runs a function without interruption up to
  its next \<^verbatim>\<open>await\<close>. The first piece (lines 41 to 47) ends in one of three ways: the
  error is thrown, the caller is pushed on the queue and suspends, or the caller goes on
  to line 48.
\<close>

datatype entry = Reject | Enqueue | Enter

definition acquireSlot_entry :: "string \<Rightarrow> caller \<Rightarrow> governor \<Rightarrow> entry \<times> governor" where
  "acquireSlot_entry today c g =
     (let g1 = resetDailyIfNeeded today g in
      if dailyCount g1 \<ge> 5000 then (Reject, g1)
      else if inFlight g1 then (Enqueue, g1\<lparr>queue := queue g1 @ [c]\<rparr>)
      else (Enter, g1))"

text \<open>
  Lines 52 and 53: the time of the admission is stored and the counter is incremented.
\<close>

definition acquireSlot_admit :: "int \<Rightarrow> governor \<Rightarrow> governor" where
  "acquireSlot_admit t g = g\<lparr>lastRequestTime := t, dailyCount := dailyCount g + 1\<rparr>"

text \<open>
  Lines 48 to 53, up to the \<^verbatim>\<open>await\<close> of the timer when there is one. \<open>now\<close> is the
  value of \<^verbatim>\<open>Date.now()\<close> on line 49 and \<open>now'\<close> its value on line 52, read in the same
  piece when \<^verbatim>\<open>wait\<close> is 0. The result is the delay of the timer, if one is set.
\<close>

definition acquireSlot_take :: "int \<Rightarrow> int \<Rightarrow> governor \<Rightarrow> int option \<times> governor" where
  "acquireSlot_take now now' g =
     (let g1 = g\<lparr>inFlight := True\<rparr>;
          wait = max 0 (500 - (now - lastRequestTime g1))
      in if wait > 0 then (Some wait, g1) else (None, acquireSlot_admit now' g1))"

text \<open>
  \<^verbatim>\<open>releaseSlot\<close>: the flag is cleared, and the first entry of the queue, if there is
  one, is removed and returned: its \<^verbatim>\<open>resolve\<close> is called.
\<close>

definition releaseSlot :: "governor \<Rightarrow> caller option \<times> governor" where
  "releaseSlot g =
     (case queue g of
        [] \<Rightarrow> (None, g\<lparr>inFlight := False\<rparr>)
      | c # cs \<Rightarrow> (Some c, g\<lparr>inFlight := False, queue := cs\<rparr>))"

section \<open>The request\<close>

text \<open>
  The search parameters of a URL are a list of pairs. \<^verbatim>\<open>URLSearchParams.set\<close> gives the
  first pair of the name the new value and removes the other pairs of that name, or
  appends a pair when the name is new.
\<close>

type_synonym query = "(string \<times> string) list"

fun sp_set :: "string \<Rightarrow> string \<Rightarrow> query \<Rightarrow> query" where
  "sp_set k v [] = [(k, v)]"
| "sp_set k v (p # ps) =
     (if fst p = k then (k, v) # filter (\<lambda>q. fst q \<noteq> k) ps else p # sp_set k v ps)"

text \<open>
  The loop of lines 74 to 76 over \<^verbatim>\<open>Object.entries(params)\<close>. A value of the object can
  be \<^verbatim>\<open>undefined\<close> at run time, which is \<open>None\<close> here.
\<close>

type_synonym params = "(string \<times> string option) list"

fun set_params :: "params \<Rightarrow> query \<Rightarrow> query" where
  "set_params [] q = q"
| "set_params ((k, v) # es) q =
     (case v of
        None \<Rightarrow> set_params es q
      | Some w \<Rightarrow> if w \<noteq> [] then set_params es (sp_set k w q) else set_params es q)"

definition BASE_URL :: string where
  "BASE_URL = ''https://api.canlii.org/v1''"

text \<open>
  A URL object: the string it was made from and its search parameters. The parser of
  \<^verbatim>\<open>new URL\<close> is the platform's; the search parameters it finds in the string (none
  when the path has no \<^verbatim>\<open>?\<close>) are the argument \<open>q0\<close> of \<open>canliiRequest_url\<close>.
\<close>

record url =
  href :: string
  searchParams :: query

record call =
  apiKey :: string
  path :: string
  params :: params

definition canliiRequest_url :: "call \<Rightarrow> query \<Rightarrow> url" where
  "canliiRequest_url rq q0 =
     \<lparr>href = BASE_URL @ path rq,
      searchParams = set_params (params rq) (sp_set ''api_key'' (apiKey rq) q0)\<rparr>"

text \<open>The parameters of a name, as \<^verbatim>\<open>URLSearchParams.getAll\<close> returns them.\<close>

definition getAll :: "string \<Rightarrow> query \<Rightarrow> string list" where
  "getAll k q = map snd (filter (\<lambda>p. fst p = k) q)"

text \<open>The decimal digits of a number, as a template literal prints \<^verbatim>\<open>res.status\<close>.\<close>

definition digit :: "nat \<Rightarrow> char" where
  "digit d = ''0123456789'' ! d"

fun show_nat :: "nat \<Rightarrow> string" where
  "show_nat n = (if n < 10 then [digit n] else show_nat (n div 10) @ [digit (n mod 10)])"

declare show_nat.simps [simp del]

definition status_message :: "nat \<Rightarrow> string \<Rightarrow> string" where
  "status_message status body = ''CanLII API '' @ show_nat status @ '': '' @ body"

text \<open>\<^verbatim>\<open>res.ok\<close> of a response.\<close>

definition ok_status :: "nat \<Rightarrow> bool" where
  "ok_status status = (200 \<le> status \<and> status \<le> 299)"

section \<open>Concurrent invocations\<close>

text \<open>
  The promise of \<^verbatim>\<open>canliiRequest\<close> is fulfilled with the parsed payload, of a type
  \<open>'j\<close> the code never looks into, or rejected with an error, of which the message is
  kept.
\<close>

datatype 'j outcome = Fulfilled 'j | Rejected string

text \<open>
  Where an invocation of \<^verbatim>\<open>canliiRequest\<close> is suspended:
  \<^item> \<open>Queued\<close>: at the \<^verbatim>\<open>await\<close> of line 46, its entry in the queue;
  \<^item> \<open>Granted\<close>: at line 46, \<^verbatim>\<open>resolve\<close> called by \<^verbatim>\<open>releaseSlot\<close>, the continuation not
    run yet;
  \<^item> \<open>Sleeping d\<close>: at the \<^verbatim>\<open>await\<close> of line 51, the timer due at time \<open>d\<close>;
  \<^item> \<open>Admitted\<close>: \<^verbatim>\<open>acquireSlot\<close> has returned, the \<^verbatim>\<open>await\<close> of line 70 not resumed yet;
  \<^item> \<open>Fetching u\<close>: at the \<^verbatim>\<open>await\<close> of line 77, the request for \<open>u\<close> sent;
  \<^item> \<open>ReadingText st\<close>: at line 79, the response of status \<open>st\<close> not ok;
  \<^item> \<open>ReadingJson\<close>: at line 82;
  \<^item> \<open>Settled r\<close>: the promise of \<^verbatim>\<open>canliiRequest\<close> is settled.
\<close>

datatype 'j pc =
    Queued
  | Granted
  | Sleeping int
  | Admitted
  | Fetching url
  | ReadingText nat
  | ReadingJson
  | Settled "'j outcome"

record 'j task =
  request :: call
  pc :: "'j pc"

text \<open>
  What the program has done, in order: an admission with the time stored in
  \<^verbatim>\<open>lastRequestTime\<close>, a call of \<^verbatim>\<open>fetch\<close>, a call of \<^verbatim>\<open>releaseSlot\<close>, the
  error of the quota thrown.
\<close>

datatype action =
    Admission caller int
  | Fetch caller url
  | Release caller
  | QuotaError caller

text \<open>
  The state of the process: the limiter, the invocations of \<^verbatim>\<open>canliiRequest\<close> made so
  far, the last value \<^verbatim>\<open>Date.now()\<close> returned, and the actions so far.
\<close>

record 'j system =
  gov :: governor
  tasks :: "caller \<Rightarrow> 'j task option"
  clock :: int
  log :: "action list"

text \<open>
  When the module is loaded. \<open>d0\<close> is what \<^verbatim>\<open>new Date().toDateString()\<close> returns then.
\<close>

definition init :: "string \<Rightarrow> 'j system" where
  "init d0 =
     \<lparr>gov = \<lparr>dailyCount = 0, dailyResetDate = d0, lastRequestTime = 0,
             inFlight = False, queue = []\<rparr>,
      tasks = (\<lambda>c. None), clock = 0, log = []\<rparr>"

definition pc_of :: "'j system \<Rightarrow> caller \<Rightarrow> 'j pc option" where
  "pc_of s c = map_option pc (tasks s c)"

definition set_pc :: "caller \<Rightarrow> 'j pc \<Rightarrow> 'j system \<Rightarrow> 'j system" where
  "set_pc c p s =
     (case tasks s c of
        None \<Rightarrow> s
      | Some t \<Rightarrow> s\<lparr>tasks := (tasks s)(c \<mapsto> t\<lparr>pc := p\<rparr>)\<rparr>)"

definition register :: "caller \<Rightarrow> call \<Rightarrow> 'j pc \<Rightarrow> 'j system \<Rightarrow> 'j system" where
  "register c rq p s = s\<lparr>tasks := (tasks s)(c \<mapsto> \<lparr>request = rq, pc = p\<rparr>)\<rparr>"

text \<open>
  Lines 48 to 53 for the caller \<open>c\<close>, run by a fresh caller that found the flag clear
  and by a waiter that resumes: where \<open>c\<close> is afterwards, and the state. The clock
  does not go back.
\<close>

definition occupy :: "caller \<Rightarrow> int \<Rightarrow> int \<Rightarrow> 'j system \<Rightarrow> ('j pc \<times> 'j system) option" where
  "occupy c now now' s =
     (if now < clock s \<or> now' < now then None
      else case acquireSlot_take now now' (gov s) of
        (Some wait, g) \<Rightarrow> Some (Sleeping (now + wait), s\<lparr>gov := g, clock := now\<rparr>)
      | (None, g) \<Rightarrow>
          Some (Admitted, s\<lparr>gov := g, clock := now', log := log s @ [Admission c now']\<rparr>))"

text \<open>
  The \<^verbatim>\<open>finally\<close> block of \<^verbatim>\<open>canliiRequest\<close> and the settling of its promise: the one
  caller \<^verbatim>\<open>releaseSlot\<close> takes off the queue has its promise resolved.
\<close>

definition wake :: "caller option \<Rightarrow> 'j system \<Rightarrow> 'j system" where
  "wake nxt s = (case nxt of None \<Rightarrow> s | Some w \<Rightarrow> set_pc w Granted s)"

definition canliiRequest_finally :: "caller \<Rightarrow> 'j outcome \<Rightarrow> 'j system \<Rightarrow> 'j system" where
  "canliiRequest_finally c r s =
     (let (nxt, g) = releaseSlot (gov s)
      in wake nxt (set_pc c (Settled r) (s\<lparr>gov := g, log := log s @ [Release c]\<rparr>)))"

text \<open>
  JavaScript runs one job at a time, each to its end or to its next \<^verbatim>\<open>await\<close>. What
  happens next is one of these events; each runs one piece of the code, from a call or
  a resumption to the next \<^verbatim>\<open>await\<close> or to the end. The events of several invocations
  follow each other in any order in which each can happen. In particular
  \<^verbatim>\<open>resolve()\<close> does not run the continuation of the waiter: it queues a job for it, and a
  job that was queued before, which may call \<^verbatim>\<open>canliiRequest\<close>, runs first. The clock and
  the timers are taken as reliable: \<^verbatim>\<open>Date.now()\<close> never goes back, and a timer does not
  fire before its delay has passed.
  \<^item> \<open>Invoke c rq today now now'\<close>: \<^verbatim>\<open>canliiRequest\<close> is called (the invocation is named
    \<open>c\<close>), the date string being \<open>today\<close> and the values of \<^verbatim>\<open>Date.now()\<close>, where
    they are read, \<open>now\<close> and \<open>now'\<close>;
  \<^item> \<open>Resume c now now'\<close>: the waiter \<open>c\<close>, its promise resolved, goes on from line 46;
  \<^item> \<open>Timer c t\<close>: the timer of \<open>c\<close> fires and \<open>c\<close> goes on from line 51 at time \<open>t\<close>;
  \<^item> \<open>Proceed c q0\<close>: \<open>c\<close> goes on from line 70 to the call of \<^verbatim>\<open>fetch\<close>;
  \<^item> \<open>Response c st\<close>: \<^verbatim>\<open>fetch\<close> resolves with a response of status \<open>st\<close>;
  \<^item> \<open>FetchError c m\<close>: \<^verbatim>\<open>fetch\<close> rejects with an error of message \<open>m\<close>;
  \<^item> \<open>Text c b\<close> and \<open>TextError c m\<close>: \<^verbatim>\<open>res.text()\<close> resolves with \<open>b\<close> or rejects;
  \<^item> \<open>Json c v\<close> and \<open>JsonError c m\<close>: \<^verbatim>\<open>res.json()\<close> resolves with \<open>v\<close> or rejects.
\<close>

datatype 'j event =
    Invoke caller call string int int
  | Resume caller int int
  | Timer caller int
  | Proceed caller query
  | Response caller nat
  | FetchError caller string
  | Text caller string
  | TextError caller string
  | Json caller 'j
  | JsonError caller string

text \<open>
  One event in a state; \<open>None\<close> when the event cannot happen there (the invocation is
  not at that point, or the clock would go back, or the timer would fire early).
\<close>

fun step :: "'j event \<Rightarrow> 'j system \<Rightarrow> 'j system option" where
  "step (Invoke c rq today now now') s =
     (if tasks s c \<noteq> None then None
      else case acquireSlot_entry today c (gov s) of
        (Reject, g) \<Rightarrow>
          Some (register c rq (Settled (Rejected quota_message))
                  (s\<lparr>gov := g, log := log s @ [QuotaError c]\<rparr>))
      | (Enqueue, g) \<Rightarrow> Some (register c rq Queued (s\<lparr>gov := g\<rparr>))
      | (Enter, g) \<Rightarrow>
          (case occupy c now now' (s\<lparr>gov := g\<rparr>) of
             None \<Rightarrow> None
           | Some (p, s') \<Rightarrow> Some (register c rq p s')))"
| "step (Resume c now now') s =
     (if pc_of s c = Some Granted
      then case occupy c now now' s of
             None \<Rightarrow> None
           | Some (p, s') \<Rightarrow> Some (set_pc c p s')
      else None)"
| "step (Timer c t) s =
     (case pc_of s c of
        Some (Sleeping d) \<Rightarrow>
          if t < d \<or> t < clock s then None
          else Some (set_pc c Admitted
                       (s\<lparr>gov := acquireSlot_admit t (gov s), clock := t, log := log s @ [Admission c t]\<rparr>))
      | _ \<Rightarrow> None)"
| "step (Proceed c q0) s =
     (case tasks s c of
        None \<Rightarrow> None
      | Some t \<Rightarrow>
          if pc t = Admitted
          then let u = canliiRequest_url (request t) q0
               in Some (set_pc c (Fetching u) (s\<lparr>log := log s @ [Fetch c u]\<rparr>))
          else None)"
| "step (Response c st) s =
     (case pc_of s c of
        Some (Fetching u) \<Rightarrow>
          Some (set_pc c (if \<not> ok_status st then ReadingText st else ReadingJson) s)
      | _ \<Rightarrow> None)"
| "step (FetchError c m) s =
     (case pc_of s c of
        Some (Fetching u) \<Rightarrow> Some (canliiRequest_finally c (Rejected m) s)
      | _ \<Rightarrow> None)"
| "step (Text c b) s =
     (case pc_of s c of
        Some (ReadingText st) \<Rightarrow> Some (canliiRequest_finally c (Rejected (status_message st b)) s)
      | _ \<Rightarrow> None)"
| "step (TextError c m) s =
     (case pc_of s c of
        Some (ReadingText st) \<Rightarrow> Some (canliiRequest_finally c (Rejected m) s)
      | _ \<Rightarrow> None)"
| "step (Json c v) s =
     (case pc_of s c of
        Some ReadingJson \<Rightarrow> Some (canliiRequest_finally c (Fulfilled v) s)
      | _ \<Rightarrow> None)"
| "step (JsonError c m) s =
     (case pc_of s c of
        Some ReadingJson \<Rightarrow> Some (canliiRequest_finally c (Rejected m) s)
      | _ \<Rightarrow> None)"

text \<open>A sequence of events, from the left.\<close>

fun run :: "'j event list \<Rightarrow> 'j system \<Rightarrow> 'j system option" where
  "run [] s = Some s"
| "run (e # es) s = (case step e s of None \<Rightarrow> None | Some s' \<Rightarrow> run es s')"

text \<open>The states the process can be in.\<close>

inductive reachable :: "'j system \<Rightarrow> bool" where
  reach_init: "reachable (init d0)"
| reach_step: "reachable s \<Longrightarrow> step e s = Some s' \<Longrightarrow> reachable s'"

text \<open>
  An invocation holds the token from line 48 on until it has called
  \<^verbatim>\<open>releaseSlot\<close>.
\<close>

fun holding :: "'j pc \<Rightarrow> bool" where
  "holding (Sleeping d) = True"
| "holding Admitted = True"
| "holding (Fetching u) = True"
| "holding (ReadingText st) = True"
| "holding ReadingJson = True"
| "holding p = False"

definition holds :: "'j system \<Rightarrow> caller \<Rightarrow> bool" where
  "holds s c = (case pc_of s c of None \<Rightarrow> False | Some p \<Rightarrow> holding p)"

definition result_of :: "'j system \<Rightarrow> caller \<Rightarrow> 'j outcome option" where
  "result_of s c = (case pc_of s c of Some (Settled r) \<Rightarrow> Some r | _ \<Rightarrow> None)"

text \<open>The invocation an event belongs to.\<close>

fun subject :: "'j event \<Rightarrow> caller" where
  "subject (Invoke c rq today now now') = c"
| "subject (Resume c now now') = c"
| "subject (Timer c t) = c"
| "subject (Proceed c q0) = c"
| "subject (Response c st) = c"
| "subject (FetchError c m) = c"
| "subject (Text c b) = c"
| "subject (TextError c m) = c"
| "subject (Json c v) = c"
| "subject (JsonError c m) = c"

section \<open>The log and the invariants\<close>

text \<open>The actions of one invocation, by kind and in order.\<close>

datatype kind = Adm | Fet | Rel | Quo

fun actor :: "action \<Rightarrow> caller" where
  "actor (Admission c t) = c"
| "actor (Fetch c u) = c"
| "actor (Release c) = c"
| "actor (QuotaError c) = c"

fun kind_of :: "action \<Rightarrow> kind" where
  "kind_of (Admission c t) = Adm"
| "kind_of (Fetch c u) = Fet"
| "kind_of (Release c) = Rel"
| "kind_of (QuotaError c) = Quo"

definition trace :: "caller \<Rightarrow> action list \<Rightarrow> kind list" where
  "trace c l = map kind_of (filter (\<lambda>a. actor a = c) l)"

text \<open>What an invocation has done when it is at a given point.\<close>

fun fits :: "'j pc option \<Rightarrow> kind list \<Rightarrow> bool" where
  "fits None ks = (ks = [])"
| "fits (Some Queued) ks = (ks = [])"
| "fits (Some Granted) ks = (ks = [])"
| "fits (Some (Sleeping d)) ks = (ks = [])"
| "fits (Some Admitted) ks = (ks = [Adm])"
| "fits (Some (Fetching u)) ks = (ks = [Adm, Fet])"
| "fits (Some (ReadingText st)) ks = (ks = [Adm, Fet])"
| "fits (Some ReadingJson) ks = (ks = [Adm, Fet])"
| "fits (Some (Settled r)) ks = (ks = [Adm, Fet, Rel] \<or> ks = [Quo])"

definition trace_ok :: "'j system \<Rightarrow> bool" where
  "trace_ok s = (\<forall>c. fits (pc_of s c) (trace c (log s)))"

text \<open>The queue holds the invocations suspended at line 46, each once.\<close>

definition queue_ok :: "'j system \<Rightarrow> bool" where
  "queue_ok s =
     (distinct (queue (gov s)) \<and> list_all (\<lambda>w. pc_of s w = Some Queued) (queue (gov s)))"

text \<open>The admissions of a log and their times; times that are 500 ms apart at least.\<close>

fun stamp :: "action \<Rightarrow> int" where
  "stamp (Admission c t) = t"
| "stamp a = 0"

definition admissions :: "action list \<Rightarrow> action list" where
  "admissions l = filter (\<lambda>a. kind_of a = Adm) l"

fun spaced :: "int list \<Rightarrow> bool" where
  "spaced (t # u # ts) = (500 \<le> u - t \<and> spaced (u # ts))"
| "spaced ts = True"

section \<open>Runs\<close>

text \<open>
  A call with no parameters; the day the process starts on and the next day, as
  \<^verbatim>\<open>toDateString\<close> prints them; the time \<^verbatim>\<open>Date.now()\<close> returns when the process starts,
  5000.8 seconds before the midnight between the two days.
\<close>

definition rq0 :: call where
  "rq0 = \<lparr>apiKey = ''K'', path = ''/caseBrowse/en/'', params = []\<rparr>"

definition day0 :: string where
  "day0 = ''Mon Nov 02 2026''"

definition day1 :: string where
  "day1 = ''Tue Nov 03 2026''"

definition t0 :: int where
  "t0 = 1793658999200"

definition midnight :: int where
  "midnight = t0 + 5000800"

text \<open>
  What a run shows at its end, when it starts with the module loaded on the first day;
  where an invocation is; the URL of a call with no parameters.
\<close>

definition observe :: "(nat system \<Rightarrow> 'a) \<Rightarrow> nat event list \<Rightarrow> 'a option" where
  "observe f es = map_option f (run es (init day0))"

definition where_is :: "caller \<Rightarrow> 'j system \<Rightarrow> 'j pc option" where
  "where_is c s = pc_of s c"

definition u0 :: url where
  "u0 = canliiRequest_url rq0 []"

text \<open>
  A call as the tool \<^verbatim>\<open>list_cases\<close> makes it, with an empty and an undefined value
  added, and a call whose parameters name \<open>api_key\<close>.
\<close>

definition rq1 :: call where
  "rq1 = \<lparr>apiKey = ''K'', path = ''/caseBrowse/en/onca/'',
          params = [(''offset'', Some ''0''), (''resultCount'', Some ''25''),
                    (''publishedBefore'', Some ''''), (''publishedAfter'', None)]\<rparr>"

definition rq2 :: call where
  "rq2 = \<lparr>apiKey = ''K'', path = ''/caseBrowse/en/'',
          params = [(''api_key'', Some ''other'')]\<rparr>"

text \<open>
  Requests one after the other: the request \<open>i\<close> is made \<open>i + 1\<close> seconds after the start,
  when nothing is in flight, and answered with status 200 before the next one.
\<close>

definition time_of :: "nat \<Rightarrow> int" where
  "time_of n = (if n = 0 then 0 else t0 + 1000 * int n)"

definition cycle :: "nat \<Rightarrow> nat event list" where
  "cycle i =
     [Invoke i rq0 day0 (time_of (Suc i)) (time_of (Suc i)),
      Proceed i [], Response i 200, Json i 0]"

fun cycles :: "nat \<Rightarrow> nat event list" where
  "cycles 0 = []"
| "cycles (Suc n) = cycles n @ cycle n"

text \<open>The state after \<open>n\<close> such requests: nothing in flight, nobody waiting.\<close>

definition idle :: "nat \<Rightarrow> nat system \<Rightarrow> bool" where
  "idle n s =
     (gov s = \<lparr>dailyCount = n, dailyResetDate = day0, lastRequestTime = time_of n,
               inFlight = False, queue = []\<rparr> \<and>
      clock s = time_of n \<and> (\<forall>c. n \<le> c \<longrightarrow> tasks s c = None))"

text \<open>
  After 4998 requests: the request 4998 is admitted (the counter is 4999), the requests
  4999 and 5000 are made while it is in flight and wait, and each is admitted when the
  one before it is done.
\<close>

definition overshoot :: "nat event list" where
  "overshoot =
     [Invoke 4998 rq0 day0 (t0 + 4999000) (t0 + 4999000), Proceed 4998 [],
      Invoke 4999 rq0 day0 (t0 + 4999100) (t0 + 4999100),
      Invoke 5000 rq0 day0 (t0 + 4999200) (t0 + 4999200),
      Response 4998 200, Json 4998 0,
      Resume 4999 (t0 + 4999500) (t0 + 4999500), Proceed 4999 [],
      Response 4999 200, Json 4999 0,
      Resume 5000 (t0 + 5000000) (t0 + 5000000)]"

text \<open>
  After 4999 requests, shortly before midnight: the request 4999 takes the token and
  sleeps, the request 5000 passes the test of the quota and waits, the request 4999 is
  admitted (the counter is 5000) and the request 5001 is rejected.
\<close>

definition capped :: "nat event list" where
  "capped =
     [Invoke 4999 rq0 day0 (t0 + 4999100) (t0 + 4999100),
      Invoke 5000 rq0 day0 (t0 + 4999200) (t0 + 4999200),
      Timer 4999 (t0 + 4999500), Proceed 4999 [],
      Invoke 5001 rq0 day0 (t0 + 4999600) (t0 + 4999600)]"

text \<open>
  After midnight the request 5002 is the first call of the new day. What follows it: the
  request 4999 is answered, the request 5000 is admitted and answered, and the request
  5002 is admitted.
\<close>

definition first_of_day :: "nat event" where
  "first_of_day = Invoke 5002 rq0 day1 (midnight + 100) (midnight + 100)"

definition after_midnight :: "nat event list" where
  "after_midnight =
     [Response 4999 200, Json 4999 0,
      Resume 5000 (midnight + 200) (midnight + 200), Proceed 5000 [],
      Response 5000 200, Json 5000 0,
      Resume 5002 (midnight + 800) (midnight + 800)]"

text \<open>
  A call in the window between \<^verbatim>\<open>releaseSlot\<close> and the waiter it has resolved. The request
  0 is in flight and the request 1 waits. The request 0 is answered: \<^verbatim>\<open>releaseSlot\<close>
  clears the flag and resolves the promise of the request 1, whose continuation is a job
  that has not run yet. The request 2 is called before it runs, finds the flag clear and
  is admitted. Then the request 1 goes on from line 46, where the flag is not tested
  again.
\<close>

definition barging :: "nat event list" where
  "barging =
     [Invoke 0 rq0 day0 (t0 + 1000) (t0 + 1000), Proceed 0 [],
      Invoke 1 rq0 day0 (t0 + 1100) (t0 + 1100),
      Response 0 200, Json 0 0,
      Invoke 2 rq0 day0 (t0 + 1700) (t0 + 1700),
      Resume 1 (t0 + 1700) (t0 + 1700),
      Proceed 2 [], Timer 1 (t0 + 2200), Proceed 1 []]"

text \<open>
  The same with two waiters: the requests 1 and 2 wait, in this order, while the
  request 0 is in flight; the request 3 is called in the window.
\<close>

definition two_waiters :: "nat event list" where
  "two_waiters =
     [Invoke 0 rq0 day0 (t0 + 1000) (t0 + 1000), Proceed 0 [],
      Invoke 1 rq0 day0 (t0 + 1100) (t0 + 1100),
      Invoke 2 rq0 day0 (t0 + 1200) (t0 + 1200),
      Response 0 200]"

definition overtaking :: "nat event list" where
  "overtaking =
     [Json 0 0, Invoke 3 rq0 day0 (t0 + 1700) (t0 + 1700),
      Resume 1 (t0 + 1800) (t0 + 1800), Timer 1 (t0 + 2200)]"

text \<open>
  The same when the request 0 is answered 200 ms after its admission: the request 2,
  called in the window, and the request 1 both read \<^verbatim>\<open>lastRequestTime\<close> before either
  writes it, and both timers are due 500 ms after the admission of the request 0.
\<close>

definition close_admissions :: "nat event list" where
  "close_admissions =
     [Invoke 0 rq0 day0 (t0 + 1000) (t0 + 1000), Proceed 0 [],
      Invoke 1 rq0 day0 (t0 + 1050) (t0 + 1050),
      Response 0 200, Json 0 0,
      Invoke 2 rq0 day0 (t0 + 1200) (t0 + 1200),
      Resume 1 (t0 + 1200) (t0 + 1200),
      Timer 2 (t0 + 1500), Timer 1 (t0 + 1500)]"

section \<open>Runs with no call in the window\<close>

text \<open>
  The window is open while an invocation is \<open>Granted\<close>. The runs in which
  \<^verbatim>\<open>canliiRequest\<close> is never called while the window is open:
\<close>

fun is_invoke :: "'j event \<Rightarrow> bool" where
  "is_invoke (Invoke c rq today now now') = True"
| "is_invoke e = False"

definition handing_over :: "'j system \<Rightarrow> bool" where
  "handing_over s = (\<exists>c. pc_of s c = Some Granted)"

inductive orderly :: "'j system \<Rightarrow> bool" where
  orderly_init: "orderly (init d0)"
| orderly_step:
    "orderly s \<Longrightarrow> step e s = Some s' \<Longrightarrow> \<not> (is_invoke e \<and> handing_over s) \<Longrightarrow> orderly s'"

text \<open>
  An invocation is busy when it holds the token or has been granted it. In these runs
  one invocation at most is busy, and the flag is set when an invocation holds the
  token.
\<close>

definition busy :: "'j system \<Rightarrow> caller \<Rightarrow> bool" where
  "busy s c = (holds s c \<or> pc_of s c = Some Granted)"

definition excl :: "'j system \<Rightarrow> bool" where
  "excl s =
     ((\<forall>c c'. busy s c \<longrightarrow> busy s c' \<longrightarrow> c = c') \<and>
      (inFlight (gov s) \<longleftrightarrow> (\<exists>c. holds s c)))"

text \<open>
  The times of the admissions are 500 ms apart, the last of them is
  \<^verbatim>\<open>lastRequestTime\<close>, and a timer is due 500 ms after it at least.
\<close>

definition pacing :: "'j system \<Rightarrow> bool" where
  "pacing s =
     (spaced (map stamp (admissions (log s))) \<and>
      (admissions (log s) \<noteq> [] \<longrightarrow>
         lastRequestTime (gov s) = stamp (last (admissions (log s)))) \<and>
      (\<forall>c d. pc_of s c = Some (Sleeping d) \<longrightarrow> lastRequestTime (gov s) + 500 \<le> d))"

text \<open>While an invocation waits in the queue, an invocation is busy.\<close>

definition served :: "'j system \<Rightarrow> bool" where
  "served s = (queue (gov s) \<noteq> [] \<longrightarrow> (\<exists>c. busy s c))"

section \<open>Properties of the steps\<close>

lemmas model_defs =
  init_def acquireSlot_entry_def resetDailyIfNeeded_def occupy_def acquireSlot_take_def acquireSlot_admit_def
  register_def set_pc_def pc_of_def canliiRequest_finally_def wake_def releaseSlot_def canliiRequest_url_def
  holds_def ok_status_def result_of_def Let_def

lemmas run_defs = rq0_def day0_def day1_def t0_def midnight_def

lemma pc_of_set_pc: "pc_of (set_pc c p s) c' = (if c' = c \<and> tasks s c \<noteq> None then Some p else pc_of s c')"
  by (auto simp: pc_of_def set_pc_def split: option.splits)

lemma pc_of_register: "pc_of (register c rq p s) c' = (if c' = c then Some p else pc_of s c')"
  by (simp add: pc_of_def register_def)

lemma gov_set_pc: "gov (set_pc c p s) = gov s"
  by (simp add: set_pc_def split: option.splits)

lemma gov_register: "gov (register c rq p s) = gov s"
  by (simp add: register_def)

lemma pc_of_upd: "pc_of (s\<lparr>gov := g\<rparr>) = pc_of s" "pc_of (s\<lparr>log := l\<rparr>) = pc_of s" "pc_of (s\<lparr>clock := t\<rparr>) = pc_of s"
  by (simp_all add: pc_of_def fun_eq_iff)

lemma pc_of_eq_None [simp]: "pc_of s c = None \<longleftrightarrow> tasks s c = None"
  by (simp add: pc_of_def)

lemma pc_of_tasks [simp]:
  "tasks s c = None \<Longrightarrow> pc_of s c = None"
  "tasks s c = Some t \<Longrightarrow> pc_of s c = Some (pc t)"
  by (simp_all add: pc_of_def)

lemma pc_of_SomeD: "pc_of s c = Some p \<Longrightarrow> \<exists>t. tasks s c = Some t \<and> pc t = p"
  by (auto simp: pc_of_def)

lemma holds_pc: "holds s c \<longleftrightarrow> (\<exists>p. pc_of s c = Some p \<and> holding p)"
  by (auto simp: holds_def split: option.splits)

lemma occupy_effect:
  "occupy c now now' s = Some (p, s') \<Longrightarrow>
     tasks s' = tasks s \<and> pc_of s' = pc_of s \<and> queue (gov s') = queue (gov s) \<and>
     ((p = Admitted \<and> log s' = log s @ [Admission c now']) \<or> ((\<exists>d. p = Sleeping d) \<and> log s' = log s))"
  by (auto simp: occupy_def acquireSlot_take_def acquireSlot_admit_def Let_def pc_of_upd split: if_splits)

lemma occupy_holding:
  "occupy c now now' s = Some (p, s') \<Longrightarrow> inFlight (gov s') \<and> holding p \<and> pc_of s' = pc_of s"
  by (auto simp: occupy_def acquireSlot_take_def acquireSlot_admit_def Let_def pc_of_upd split: if_splits)

lemma inFlight_reset: "inFlight (resetDailyIfNeeded today g) = inFlight g"
  by (simp add: resetDailyIfNeeded_def)

lemma pc_of_finish: "queue_ok s \<Longrightarrow> pc_of s c = Some p \<Longrightarrow> p \<noteq> Queued \<Longrightarrow>
   pc_of (canliiRequest_finally c r s) c' = (if c' = c then Some (Settled r) else if queue (gov s) \<noteq> [] \<and> c' = hd (queue (gov s)) then Some Granted else pc_of s c')"
  apply (auto simp: canliiRequest_finally_def releaseSlot_def wake_def pc_of_set_pc pc_of_upd queue_ok_def split: list.splits)
  apply (auto simp: pc_of_def set_pc_def split: option.splits)
  done

lemma queue_finish: "queue (gov (canliiRequest_finally c r s)) = tl (queue (gov s))"
  by (auto simp: canliiRequest_finally_def releaseSlot_def wake_def gov_set_pc split: list.splits)

lemma gov_finish_inFlight: "\<not> inFlight (gov (canliiRequest_finally c r s))"
  by (simp add: canliiRequest_finally_def releaseSlot_def wake_def gov_set_pc split: list.splits)

lemma lastRequestTime_finish: "lastRequestTime (gov (canliiRequest_finally c r s)) = lastRequestTime (gov s)"
  by (simp add: canliiRequest_finally_def releaseSlot_def wake_def gov_set_pc split: list.splits)

lemma log_set_pc: "log (set_pc c p s) = log s"
  by (simp add: set_pc_def split: option.splits)

lemma log_register: "log (register c rq p s) = log s"
  by (simp add: register_def)

lemma log_finish: "log (canliiRequest_finally c r s) = log s @ [Release c]"
  by (simp add: canliiRequest_finally_def releaseSlot_def wake_def log_set_pc split: list.splits option.splits)

lemma trace_snoc: "trace c (l @ [a]) = trace c l @ (if actor a = c then [kind_of a] else [])"
  by (simp add: trace_def)

lemma trace_append: "trace c (l @ l') = trace c l @ trace c l'"
  by (simp add: trace_def)

lemma run_append: "run (es @ fs) s = (case run es s of None \<Rightarrow> None | Some s1 \<Rightarrow> run fs s1)"
  by (induction es arbitrary: s) (auto split: option.splits)

lemma observe_run: "run es (init day0) = Some s \<Longrightarrow> observe f es = Some (f s)"
  by (simp add: observe_def)

section \<open>The queue and the actions of an invocation\<close>

lemma queue_ok_finish:
  assumes "queue_ok s" "pc_of s c = Some p" "p \<noteq> Queued"
  shows "queue_ok (canliiRequest_finally c r s)"
proof (cases "queue (gov s)")
  case Nil
  then show ?thesis using assms
    by (simp add: queue_ok_def queue_finish)
next
  case (Cons w ws)
  then show ?thesis using assms
    by (auto simp: queue_ok_def queue_finish pc_of_finish list_all_iff)
qed

lemma queue_ok_step: "queue_ok s \<Longrightarrow> step e s = Some s' \<Longrightarrow> queue_ok s'"
proof (cases e)
  case (Invoke c rq today now now')
  assume "queue_ok s" "step e s = Some s'"
  then show ?thesis using Invoke
    apply (auto simp: queue_ok_def acquireSlot_entry_def resetDailyIfNeeded_def Let_def pc_of_register gov_register list_all_iff pc_of_upd
       split: if_splits option.splits dest!: occupy_effect)
    apply (auto simp: pc_of_def)
    done
next
  case (Resume c now now')
  assume "queue_ok s" "step e s = Some s'"
  then show ?thesis using Resume
    by (auto simp: queue_ok_def pc_of_set_pc gov_set_pc list_all_iff split: if_splits option.splits dest!: occupy_effect)
next
  case (Timer c t)
  assume "queue_ok s" "step e s = Some s'"
  then show ?thesis using Timer
    by (auto simp: queue_ok_def pc_of_set_pc gov_set_pc acquireSlot_admit_def pc_of_upd list_all_iff split: if_splits option.splits pc.splits)
next
  case (Proceed c q0)
  assume "queue_ok s" "step e s = Some s'"
  then show ?thesis using Proceed
    apply (auto simp: queue_ok_def pc_of_set_pc gov_set_pc Let_def pc_of_upd list_all_iff split: if_splits option.splits)
    apply (auto simp: pc_of_def)
    done
next
  case (Response c st)
  assume "queue_ok s" "step e s = Some s'"
  then show ?thesis using Response
    by (auto simp: queue_ok_def pc_of_set_pc gov_set_pc list_all_iff split: if_splits option.splits pc.splits)
next
  case (FetchError c m)
  assume a: "queue_ok s" "step e s = Some s'"
  then show ?thesis using FetchError
    by (auto split: option.splits pc.splits intro: queue_ok_finish)
next
  case (Text c b)
  assume a: "queue_ok s" "step e s = Some s'"
  then show ?thesis using Text
    by (auto split: option.splits pc.splits intro: queue_ok_finish)
next
  case (TextError c m)
  assume a: "queue_ok s" "step e s = Some s'"
  then show ?thesis using TextError
    by (auto split: option.splits pc.splits intro: queue_ok_finish)
next
  case (Json c v)
  assume a: "queue_ok s" "step e s = Some s'"
  then show ?thesis using Json
    by (auto split: option.splits pc.splits intro: queue_ok_finish)
next
  case (JsonError c m)
  assume a: "queue_ok s" "step e s = Some s'"
  then show ?thesis using JsonError
    by (auto split: option.splits pc.splits intro: queue_ok_finish)
qed

lemma queue_ok_init: "queue_ok (init d0)"
  by (simp add: queue_ok_def init_def)

lemma reachable_queue_ok: "reachable s \<Longrightarrow> queue_ok s"
  by (induction rule: reachable.induct) (auto intro: queue_ok_init queue_ok_step)

lemma step_frame:
  assumes "queue_ok s" "step e s = Some s'" "c \<noteq> subject e"
  shows "pc_of s' c = pc_of s c \<or> (pc_of s c = Some Queued \<and> pc_of s' c = Some Granted)"
  using assms
  by (cases e)
     (auto simp: pc_of_register pc_of_set_pc pc_of_upd pc_of_finish acquireSlot_entry_def Let_def queue_ok_def list_all_iff
           split: if_splits option.splits pc.splits dest!: occupy_effect)

lemma fits_trace_step:
  assumes "queue_ok s" "step e s = Some s'" "fits (pc_of s c) (trace c (log s))"
  shows "fits (pc_of s' c) (trace c (log s'))"
proof (cases "c = subject e")
  case False
  have l: "trace c (log s') = trace c (log s)"
    using assms(2) False
    by (cases e)
       (auto simp: trace_snoc log_register log_set_pc log_finish acquireSlot_entry_def Let_def
             split: if_splits option.splits pc.splits dest!: occupy_effect)
  from step_frame[OF assms(1,2) False] show ?thesis
    using assms(3) l by auto
next
  case True
  then show ?thesis using assms
    by (cases e)
       (auto simp: trace_snoc log_register log_set_pc log_finish acquireSlot_entry_def Let_def
                   pc_of_register pc_of_set_pc pc_of_upd pc_of_finish
             split: if_splits option.splits pc.splits dest!: occupy_effect dest: pc_of_SomeD)
qed

lemma trace_ok_step: "queue_ok s \<Longrightarrow> trace_ok s \<Longrightarrow> step e s = Some s' \<Longrightarrow> trace_ok s'"
  unfolding trace_ok_def by (blast intro: fits_trace_step)

lemma trace_ok_init: "trace_ok (init d0)"
  by (simp add: trace_ok_def init_def trace_def)

lemma reachable_trace_ok: "reachable s \<Longrightarrow> trace_ok s"
  by (induction rule: reachable.induct)
     (auto intro: trace_ok_init trace_ok_step reachable_queue_ok)

lemma reachable_run: "reachable s \<Longrightarrow> run es s = Some s' \<Longrightarrow> reachable s'"
  by (induction es arbitrary: s) (auto split: option.splits intro: reachable.reach_step)

lemma settled_step:
  assumes "queue_ok s" "step e s = Some s'" "pc_of s c = Some (Settled r)"
  shows "pc_of s' c = Some (Settled r)"
proof (cases "c = subject e")
  case False
  from step_frame[OF assms(1,2) False] assms(3) show ?thesis by auto
next
  case True
  then show ?thesis using assms(2,3)
    by (cases e) (auto split: if_splits option.splits pc.splits dest: pc_of_SomeD)
qed

lemma settled_run:
  "reachable s \<Longrightarrow> run es s = Some s' \<Longrightarrow> pc_of s c = Some (Settled r) \<Longrightarrow> pc_of s' c = Some (Settled r)"
proof (induction es arbitrary: s)
  case Nil
  then show ?case by simp
next
  case (Cons e es)
  from Cons.prems(2) obtain s1 where s1: "step e s = Some s1" "run es s1 = Some s'"
    by (auto split: option.splits)
  have "pc_of s1 c = Some (Settled r)"
    using settled_step[OF reachable_queue_ok[OF Cons.prems(1)] s1(1) Cons.prems(3)] .
  moreover have "reachable s1"
    using Cons.prems(1) s1(1) by (rule reachable.reach_step)
  ultimately show ?case using Cons.IH s1(2) by blast
qed

lemma log_step: "step e s = Some s' \<Longrightarrow> \<exists>l. log s' = log s @ l"
  by (cases e)
     (auto simp: log_register log_set_pc log_finish acquireSlot_entry_def Let_def
           split: if_splits option.splits pc.splits dest!: occupy_effect)

lemma log_run: "run es s = Some s' \<Longrightarrow> \<exists>l. log s' = log s @ l"
proof (induction es arbitrary: s)
  case Nil
  then show ?case by simp
next
  case (Cons e es)
  from Cons.prems obtain s1 where s1: "step e s = Some s1" "run es s1 = Some s'"
    by (auto split: option.splits)
  from log_step[OF s1(1)] Cons.IH[OF s1(2)] show ?case by auto
qed

lemma count_release_trace: "count_list l (Release c) = count_list (trace c l) Rel"
proof (induction l)
  case Nil
  then show ?case by (simp add: trace_def)
next
  case (Cons a l)
  then show ?case by (cases a) (auto simp: trace_def)
qed

lemma exit_step:
  assumes "queue_ok s" "step e s = Some s'" "holds s c" "pc_of s' c = Some (Settled r)"
  shows "s' = canliiRequest_finally c r s"
proof (cases "c = subject e")
  case False
  from step_frame[OF assms(1,2) False] have "pc_of s c = Some (Settled r) \<or> pc_of s c = Some Queued"
    using assms(4) by auto
  then show ?thesis using assms(3)
    by (auto simp: holds_def)
next
  case True
  then show ?thesis using assms
    by (cases e)
       (auto simp: holds_def pc_of_register pc_of_set_pc pc_of_upd pc_of_finish acquireSlot_entry_def Let_def
             split: if_splits option.splits pc.splits dest!: occupy_effect dest: pc_of_SomeD)
qed

lemma others_frame:
  "reachable s \<Longrightarrow> run es s = Some s' \<Longrightarrow> list_all (\<lambda>e. subject e \<noteq> c) es \<Longrightarrow>
   pc_of s c = Some p \<Longrightarrow> p \<noteq> Queued \<Longrightarrow> pc_of s' c = Some p"
proof (induction es arbitrary: s)
  case Nil
  then show ?case by simp
next
  case (Cons e es)
  from Cons.prems(2) obtain s1 where s1: "step e s = Some s1" "run es s1 = Some s'"
    by (auto split: option.splits)
  from Cons.prems(3) have ne: "c \<noteq> subject e" and rest: "list_all (\<lambda>e. subject e \<noteq> c) es"
    by auto
  have "pc_of s1 c = Some p"
    using step_frame[OF reachable_queue_ok[OF Cons.prems(1)] s1(1) ne] Cons.prems(4,5) by auto
  moreover have "reachable s1"
    using Cons.prems(1) s1(1) by (rule reachable.reach_step)
  ultimately show ?case using Cons.IH s1(2) rest Cons.prems(5) by blast
qed

lemma result_finish:
  "queue_ok s \<Longrightarrow> pc_of s c = Some p \<Longrightarrow> p \<noteq> Queued \<Longrightarrow> result_of (canliiRequest_finally c r s) c = Some r"
  by (simp add: result_of_def pc_of_finish)

section \<open>The URL of the request\<close>

lemma getAll_sp_set: "getAll k' (sp_set k v q) = (if k' = k then [v] else getAll k' q)"
proof (induction q)
  case Nil
  then show ?case by (simp add: getAll_def)
next
  case (Cons p q)
  have "filter (\<lambda>a. fst a = k) (filter (\<lambda>a. fst a \<noteq> k) q) = []"
    by (induction q) auto
  moreover have "k' \<noteq> k \<Longrightarrow> filter (\<lambda>a. fst a = k') (filter (\<lambda>a. fst a \<noteq> k) q) = filter (\<lambda>a. fst a = k') q"
    by (induction q) auto
  ultimately show ?case using Cons by (auto simp: getAll_def)
qed

lemma getAll_set_params:
  "distinct (map fst es) \<Longrightarrow>
   getAll k (set_params es q) =
     (case map_of es k of
        Some (Some w) \<Rightarrow> if w \<noteq> [] then [w] else getAll k q
      | _ \<Rightarrow> getAll k q)"
proof (induction es arbitrary: q)
  case Nil
  then show ?case by simp
next
  case (Cons e es)
  obtain k1 v1 where e: "e = (k1, v1)" by (cases e)
  from Cons.prems have d: "distinct (map fst es)" and n: "k1 \<notin> fst ` set es"
    by (auto simp: e)
  from n have m: "map_of es k1 = None"
    by (simp add: map_of_eq_None_iff)
  show ?case
  proof (cases "k = k1")
    case True
    then show ?thesis using Cons.IH[OF d] m
      by (auto simp: e getAll_sp_set split: option.splits)
  next
    case False
    then show ?thesis using Cons.IH[OF d]
      by (auto simp: e getAll_sp_set split: option.splits)
  qed
qed

text \<open>
  C9. The keys of \<^verbatim>\<open>Object.entries(params)\<close> are distinct. For every name \<open>k\<close>, the URL
  that is fetched has exactly one parameter \<open>k\<close>, of value \<open>w\<close>, when \<open>params\<close> gives \<open>k\<close>
  a value \<open>w\<close> that is neither undefined nor empty; for any other name the loop sets
  nothing: the parameter \<open>api_key\<close> is the configured key, and another name has what the
  string of the URL had (nothing when the path has no query). The parameter
  \<open>api_key\<close> is always there.
\<close>

theorem query_parameters:
  assumes "distinct (map fst (params rq))"
  shows "getAll k (searchParams (canliiRequest_url rq q0)) =
           (case map_of (params rq) k of
              Some (Some w) \<Rightarrow>
                if w \<noteq> [] then [w]
                else if k = ''api_key'' then [apiKey rq] else getAll k q0
            | _ \<Rightarrow> if k = ''api_key'' then [apiKey rq] else getAll k q0) \<and>
         getAll ''api_key'' (searchParams (canliiRequest_url rq q0)) \<noteq> []"
  using assms
  by (auto simp: canliiRequest_url_def getAll_set_params getAll_sp_set split: option.splits)

theorem query_parameters_witness:
  "distinct (map fst (params rq1)) \<and>
   getAll ''offset'' (searchParams (canliiRequest_url rq1 [])) = [''0''] \<and>
   getAll ''resultCount'' (searchParams (canliiRequest_url rq1 [])) = [''25''] \<and>
   getAll ''publishedBefore'' (searchParams (canliiRequest_url rq1 [])) = [] \<and>
   getAll ''publishedAfter'' (searchParams (canliiRequest_url rq1 [])) = [] \<and>
   getAll ''api_key'' (searchParams (canliiRequest_url rq1 [])) = [''K'']"
proof -
  have d: "distinct (map fst (params rq1))"
    by (simp add: rq1_def)
  show ?thesis
    using d query_parameters[OF d, of "''offset''" "[]"]
      query_parameters[OF d, of "''resultCount''" "[]"]
      query_parameters[OF d, of "''publishedBefore''" "[]"]
      query_parameters[OF d, of "''publishedAfter''" "[]"]
      query_parameters[OF d, of "''api_key''" "[]"]
    by (simp add: rq1_def getAll_def)
qed

text \<open>
  C10. When \<open>params\<close> gives \<open>api_key\<close> a value \<open>v\<close> that is not empty, the one parameter
  \<open>api_key\<close> of the URL that is fetched is \<open>v\<close>, whatever the configured key is.
\<close>

theorem api_key_override:
  assumes "distinct (map fst (params rq))" and "(''api_key'', Some v) \<in> set (params rq)"
    and "v \<noteq> []"
  shows "getAll ''api_key'' (searchParams (canliiRequest_url rq q0)) = [v]"
proof -
  have "map_of (params rq) ''api_key'' = Some (Some v)"
    using assms(1,2) by simp
  then show ?thesis
    using assms(1,3) by (simp add: canliiRequest_url_def getAll_set_params)
qed

theorem api_key_override_witness:
  "distinct (map fst (params rq2)) \<and> (''api_key'', Some ''other'') \<in> set (params rq2) \<and>
   ''other'' \<noteq> [] \<and> apiKey rq2 = ''K'' \<and>
   getAll ''api_key'' (searchParams (canliiRequest_url rq2 [])) = [''other'']"
proof -
  have d: "distinct (map fst (params rq2))"
    and m: "(''api_key'', Some ''other'') \<in> set (params rq2)"
    and n: "''other'' \<noteq> []"
    by (simp_all add: rq2_def)
  show ?thesis
    using d m api_key_override[OF d m n, of "[]"] by (simp add: rq2_def)
qed

section \<open>The outcome of the request and the release of the token\<close>

text \<open>
  C8. An invocation has called \<^verbatim>\<open>fetch\<close>; the response arrives with status \<open>st\<close>, and
  other invocations may run before the body is read.
  When \<open>st\<close> is not a 2xx status, the body \<open>b\<close> read by \<^verbatim>\<open>res.text()\<close> gives the error
  of message \<^verbatim>\<open>CanLII API\<close> \<open>st\<close>\<^verbatim>\<open>:\<close> \<open>b\<close>, which contains the digits of \<open>st\<close> and \<open>b\<close> as it
  is. When \<open>st\<close> is a 2xx status, the value \<open>v\<close> that \<^verbatim>\<open>res.json()\<close> returns is the
  result, unchanged. An error of \<^verbatim>\<open>fetch\<close>, of \<^verbatim>\<open>res.text()\<close> or of \<^verbatim>\<open>res.json()\<close> is the
  result with its message.
\<close>

theorem upstream_failure_mapping:
  assumes "reachable s" and "pc_of s c = Some (Fetching u)"
    and "run (Response c st # es) s = Some s1" and "list_all (\<lambda>e. subject e \<noteq> c) es"
  shows "(\<not> ok_status st \<longrightarrow>
            (\<exists>s'. step (Text c b) s1 = Some s' \<and>
                  result_of s' c = Some (Rejected (status_message st b))) \<and>
            (\<exists>s'. step (TextError c m) s1 = Some s' \<and> result_of s' c = Some (Rejected m))) \<and>
         sublist (show_nat st) (status_message st b) \<and> sublist b (status_message st b) \<and>
         (ok_status st \<longrightarrow>
            (\<exists>s'. step (Json c v) s1 = Some s' \<and> result_of s' c = Some (Fulfilled v)) \<and>
            (\<exists>s'. step (JsonError c m) s1 = Some s' \<and> result_of s' c = Some (Rejected m))) \<and>
         (\<exists>s'. step (FetchError c m) s = Some s' \<and> result_of s' c = Some (Rejected m))"
proof -
  let ?p = "if \<not> ok_status st then ReadingText st else ReadingJson"
  define s0 where "s0 = set_pc c ?p s"
  have q: "queue_ok s" using assms(1) by (rule reachable_queue_ok)
  have st0: "step (Response c st) s = Some s0"
    using assms(2) by (simp add: s0_def)
  have r0: "reachable s0" using assms(1) st0 by (rule reachable.reach_step)
  have p0: "pc_of s0 c = Some ?p"
  proof -
    obtain t where "tasks s c = Some t" using pc_of_SomeD[OF assms(2)] by blast
    then show ?thesis by (simp add: s0_def pc_of_set_pc)
  qed
  have rn: "run es s0 = Some s1" using assms(3) st0 by simp
  have p1: "pc_of s1 c = Some ?p"
    using others_frame[OF r0 rn assms(4) p0] by (simp split: if_splits)
  have q1: "queue_ok s1" using reachable_run[OF r0 rn] by (rule reachable_queue_ok)
  have bad: "\<not> ok_status st \<Longrightarrow> pc_of s1 c = Some (ReadingText st)"
    and good: "ok_status st \<Longrightarrow> pc_of s1 c = Some ReadingJson"
    using p1 by simp_all
  have a: "\<not> ok_status st \<longrightarrow>
            (\<exists>s'. step (Text c b) s1 = Some s' \<and>
                  result_of s' c = Some (Rejected (status_message st b))) \<and>
            (\<exists>s'. step (TextError c m) s1 = Some s' \<and> result_of s' c = Some (Rejected m))"
    using bad q1 by (auto simp: result_finish)
  have b: "ok_status st \<longrightarrow>
            (\<exists>s'. step (Json c v) s1 = Some s' \<and> result_of s' c = Some (Fulfilled v)) \<and>
            (\<exists>s'. step (JsonError c m) s1 = Some s' \<and> result_of s' c = Some (Rejected m))"
    using good q1 by (auto simp: result_finish)
  have c: "\<exists>s'. step (FetchError c m) s = Some s' \<and> result_of s' c = Some (Rejected m)"
    using assms(2) q by (auto simp: result_finish)
  have d: "sublist (show_nat st) (status_message st b)"
    unfolding status_message_def by (rule sublist_appendI)
  have "sublist b ((''CanLII API '' @ show_nat st @ '': '') @ b @ [])"
    by (rule sublist_appendI)
  then have e: "sublist b (status_message st b)"
    by (simp add: status_message_def)
  show ?thesis using a b c d e by blast
qed

theorem upstream_failure_mapping_witness:
  "\<exists>s s1 s2.
     run [Invoke 0 rq0 day0 (t0 + 1000) (t0 + 1000), Proceed 0 []] (init day0 :: nat system) = Some s \<and>
     pc_of s 0 = Some (Fetching (canliiRequest_url rq0 [])) \<and>
     run [Response 0 404, Invoke 1 rq0 day0 (t0 + 1200) (t0 + 1200)] s = Some s1 \<and> \<not> ok_status 404 \<and>
     (\<exists>s'. step (Text 0 ''not found'') s1 = Some s' \<and>
           result_of s' 0 = Some (Rejected ''CanLII API 404: not found'')) \<and>
     sublist ''404'' ''CanLII API 404: not found'' \<and>
     sublist ''not found'' ''CanLII API 404: not found'' \<and>
     run [Response 0 200, Invoke 1 rq0 day0 (t0 + 1200) (t0 + 1200)] s = Some s2 \<and> ok_status 200 \<and>
     (\<exists>s'. step (Json 0 7) s2 = Some s' \<and> result_of s' 0 = Some (Fulfilled 7)) \<and>
     (\<exists>s'. step (FetchError 0 ''fetch failed'') s = Some s' \<and>
           result_of s' 0 = Some (Rejected ''fetch failed''))"
proof -
  let ?es = "[Invoke 0 rq0 day0 (t0 + 1000) (t0 + 1000), Proceed 0 []] :: nat event list"
  let ?o = "[Invoke 1 rq0 day0 (t0 + 1200) (t0 + 1200)] :: nat event list"
  define s where "s = the (run ?es (init day0))"
  define s1 where "s1 = the (run (Response 0 404 # ?o) s)"
  define s2 where "s2 = the (run (Response 0 200 # ?o) s)"
  have rs: "run ?es (init day0) = Some s"
    unfolding s_def by (simp add: model_defs rq0_def day0_def t0_def)
  have p: "pc_of s 0 = Some (Fetching (canliiRequest_url rq0 []))"
    unfolding s_def by (simp add: model_defs rq0_def day0_def t0_def)
  have r1: "run (Response 0 404 # ?o) s = Some s1"
    unfolding s1_def s_def by (simp add: model_defs rq0_def day0_def t0_def)
  have r2: "run (Response 0 200 # ?o) s = Some s2"
    unfolding s2_def s_def by (simp add: model_defs rq0_def day0_def t0_def)
  have o: "list_all (\<lambda>e. subject e \<noteq> 0) ?o" by simp
  have k: "\<not> ok_status 404" "ok_status 200" by (simp_all add: ok_status_def)
  have m: "status_message 404 ''not found'' = ''CanLII API 404: not found''"
    "show_nat 404 = ''404''"
    by (simp_all add: status_message_def show_nat.simps digit_def)
  have r: "reachable s"
    using reachable_run[OF reachable.reach_init rs] .
  from upstream_failure_mapping[OF r p r1 o, of "''not found''" "''fetch failed''" 7] k(1)
  have a: "\<exists>s'. step (Text 0 ''not found'') s1 = Some s' \<and>
           result_of s' 0 = Some (Rejected ''CanLII API 404: not found'')"
    and b: "sublist ''404'' ''CanLII API 404: not found''"
    and c: "sublist ''not found'' ''CanLII API 404: not found''"
    and d: "\<exists>s'. step (FetchError 0 ''fetch failed'') s = Some s' \<and>
           result_of s' 0 = Some (Rejected ''fetch failed'')"
    unfolding m by blast+
  from upstream_failure_mapping[OF r p r2 o, of "''not found''" "''fetch failed''" 7] k(2)
  have e: "\<exists>s'. step (Json 0 7) s2 = Some s' \<and> result_of s' 0 = Some (Fulfilled 7)"
    by blast
  show ?thesis using rs p r1 r2 k a b c d e by blast
qed

text \<open>
  C5. When an invocation that holds the token leaves \<^verbatim>\<open>canliiRequest\<close>, with a payload
  or with any error, \<^verbatim>\<open>releaseSlot\<close> is called in that step, it was not called for this
  invocation before and is never called for it again, and the flag is clear afterwards.
\<close>

theorem release_exactly_once:
  assumes "reachable s" and "step e s = Some s'" and "holds s c"
    and "pc_of s' c = Some (Settled r)"
  shows "log s' = log s @ [Release c] \<and> count_list (log s) (Release c) = 0 \<and>
         \<not> inFlight (gov s') \<and>
         (\<forall>es s2. run es s' = Some s2 \<longrightarrow> count_list (log s2) (Release c) = 1)"
proof -
  have q: "queue_ok s" using assms(1) by (rule reachable_queue_ok)
  have s': "s' = canliiRequest_finally c r s" using exit_step[OF q assms(2,3,4)] .
  have l: "log s' = log s @ [Release c]" by (simp add: s' log_finish)
  have "fits (pc_of s c) (trace c (log s))"
    using reachable_trace_ok[OF assms(1)] by (simp add: trace_ok_def)
  then have before: "count_list (log s) (Release c) = 0"
    using assms(3) unfolding count_release_trace holds_def
    by (cases "pc_of s c"; cases "the (pc_of s c)") auto
  have r': "reachable s'" using assms(1,2) by (rule reachable.reach_step)
  have after: "count_list (log s2) (Release c) = 1" if rn: "run es s' = Some s2" for es s2
  proof -
    have "pc_of s2 c = Some (Settled r)" using settled_run[OF r' rn assms(4)] .
    moreover have "fits (pc_of s2 c) (trace c (log s2))"
      using reachable_trace_ok[OF reachable_run[OF r' rn]] by (simp add: trace_ok_def)
    ultimately have t: "trace c (log s2) = [Adm, Fet, Rel] \<or> trace c (log s2) = [Quo]" by simp
    obtain l2 where "log s2 = log s' @ l2" using log_run[OF rn] by blast
    then have "Release c \<in> set (log s2)" using l by simp
    then have "count_list (log s2) (Release c) \<noteq> 0" by (simp add: count_list_0_iff)
    then show ?thesis using t unfolding count_release_trace by auto
  qed
  show ?thesis using l before after by (simp add: s' gov_finish_inFlight)
qed

theorem release_exactly_once_witness:
  "\<exists>s s'. run [Invoke 0 rq0 day0 (t0 + 1000) (t0 + 1000), Proceed 0 [], Response 0 404]
            (init day0 :: nat system) = Some s \<and>
     step (Text 0 ''not found'') s = Some s' \<and> holds s 0 \<and>
     pc_of s' 0 = Some (Settled (Rejected ''CanLII API 404: not found'')) \<and>
     log s' = log s @ [Release 0] \<and> count_list (log s) (Release 0) = 0 \<and>
     \<not> inFlight (gov s') \<and> count_list (log s') (Release 0) = 1"
proof -
  let ?es = "[Invoke 0 rq0 day0 (t0 + 1000) (t0 + 1000), Proceed 0 [], Response 0 404] :: nat event list"
  define s where "s = the (run ?es (init day0))"
  define s' where "s' = the (step (Text 0 ''not found'') s)"
  have rs: "run ?es (init day0) = Some s"
    unfolding s_def by (simp add: model_defs rq0_def day0_def t0_def)
  have st: "step (Text 0 ''not found'') s = Some s'"
    unfolding s'_def s_def by (simp add: model_defs rq0_def day0_def t0_def)
  have h: "holds s 0"
    unfolding s_def by (simp add: model_defs rq0_def day0_def t0_def)
  have p: "pc_of s' 0 = Some (Settled (Rejected ''CanLII API 404: not found''))"
    unfolding s'_def s_def by (simp add: model_defs rq0_def day0_def t0_def status_message_def show_nat.simps digit_def)
  have r: "reachable s"
    using reachable_run[OF reachable.reach_init rs] .
  from release_exactly_once[OF r st h p]
  have "log s' = log s @ [Release 0] \<and> count_list (log s) (Release 0) = 0 \<and>
        \<not> inFlight (gov s') \<and> count_list (log s') (Release 0) = 1"
    by (metis run.simps(1))
  with rs st h p show ?thesis by blast
qed

section \<open>The daily quota\<close>

lemma idle_cycle:
  assumes "idle n s" "n < 5000"
  shows "\<exists>s'. run (cycle n) s = Some s' \<and> idle (Suc n) s'"
proof -
  from assms(1) have g: "gov s = \<lparr>dailyCount = n, dailyResetDate = day0, lastRequestTime = time_of n,
               inFlight = False, queue = []\<rparr>" and c: "clock s = time_of n" and t: "tasks s n = None"
    and t': "\<And>c. Suc n \<le> c \<Longrightarrow> tasks s c = None"
    by (simp_all add: idle_def)
  show ?thesis using assms(2) g c t t'
    by (simp add: cycle_def idle_def model_defs time_of_def t0_def)
qed

lemma idle_cycles: "n \<le> 5000 \<Longrightarrow> \<exists>s. run (cycles n) (init day0) = Some s \<and> idle n s"
proof (induction n)
  case 0
  then show ?case by (simp add: idle_def init_def time_of_def)
next
  case (Suc n)
  then obtain s where s: "run (cycles n) (init day0) = Some s" "idle n s" by auto
  from idle_cycle[OF s(2)] Suc.prems obtain s' where "run (cycle n) s = Some s'" "idle (Suc n) s'"
    by auto
  then show ?case using s(1) by (simp add: run_append)
qed

text \<open>
  C4. A call of \<^verbatim>\<open>canliiRequest\<close> that finds the counter at 5000 or more after
  \<^verbatim>\<open>resetDailyIfNeeded\<close> is rejected in that step with the error of the quota. The
  limiter and the clock are as before, the other invocations too; the log gains the
  error only. Whatever happens later, the result of the invocation stays this error and
  the invocation never calls \<^verbatim>\<open>fetch\<close> or \<^verbatim>\<open>releaseSlot\<close>.
\<close>

theorem quota_exceeded_atomic:
  assumes "reachable s" and "tasks s c = None"
    and "5000 \<le> dailyCount (resetDailyIfNeeded today (gov s))"
  shows "\<exists>s1. step (Invoke c rq today now now') s = Some s1 \<and>
           gov s1 = gov s \<and> clock s1 = clock s \<and> log s1 = log s @ [QuotaError c] \<and>
           (\<forall>c'. c' \<noteq> c \<longrightarrow> tasks s1 c' = tasks s c') \<and>
           (\<forall>es s2. run es s1 = Some s2 \<longrightarrow>
              result_of s2 c = Some (Rejected quota_message) \<and> trace c (log s2) = [Quo])"
proof -
  define s1 where "s1 = register c rq (Settled (Rejected quota_message)) (s\<lparr>log := log s @ [QuotaError c]\<rparr>)"
  have same: "resetDailyIfNeeded today (gov s) = gov s"
    using assms(3) by (auto simp: resetDailyIfNeeded_def split: if_splits)
  have st: "step (Invoke c rq today now now') s = Some s1"
    using assms(2,3) same by (simp add: acquireSlot_entry_def Let_def s1_def)
  have frame: "gov s1 = gov s" "clock s1 = clock s" "log s1 = log s @ [QuotaError c]"
    "\<And>c'. c' \<noteq> c \<Longrightarrow> tasks s1 c' = tasks s c'"
    by (simp_all add: s1_def register_def)
  have p1: "pc_of s1 c = Some (Settled (Rejected quota_message))"
    by (simp add: s1_def pc_of_register)
  have r1: "reachable s1" using assms(1) st by (rule reachable.reach_step)
  have "fits (pc_of s c) (trace c (log s))"
    using reachable_trace_ok[OF assms(1)] by (simp add: trace_ok_def)
  then have t0: "trace c (log s) = []" using assms(2) by simp
  have later: "result_of s2 c = Some (Rejected quota_message) \<and> trace c (log s2) = [Quo]"
    if rn: "run es s1 = Some s2" for es s2
  proof -
    have p2: "pc_of s2 c = Some (Settled (Rejected quota_message))"
      using settled_run[OF r1 rn p1] .
    have "fits (pc_of s2 c) (trace c (log s2))"
      using reachable_trace_ok[OF reachable_run[OF r1 rn]] by (simp add: trace_ok_def)
    then have t: "trace c (log s2) = [Adm, Fet, Rel] \<or> trace c (log s2) = [Quo]"
      using p2 by simp
    obtain l2 where "log s2 = log s1 @ l2" using log_run[OF rn] by blast
    then have "trace c (log s2) = Quo # trace c l2"
      using t0 by (simp add: frame(3) trace_append) (simp add: trace_def)
    then show ?thesis using t p2 by (auto simp: result_of_def)
  qed
  show ?thesis using st frame later by blast
qed

theorem quota_exceeded_atomic_witness:
  "\<exists>s. run (cycles 5000) (init day0) = Some s \<and> tasks s 5000 = None \<and>
       5000 \<le> dailyCount (resetDailyIfNeeded day0 (gov s)) \<and>
       (\<exists>s1. step (Invoke 5000 rq0 day0 (t0 + 5000500) (t0 + 5000500)) s = Some s1 \<and> gov s1 = gov s \<and>
          clock s1 = clock s \<and> log s1 = log s @ [QuotaError 5000] \<and>
          result_of s1 5000 = Some (Rejected quota_message) \<and> trace 5000 (log s1) = [Quo])"
proof -
  obtain s where s: "run (cycles 5000) (init day0) = Some s" "idle 5000 s"
    using idle_cycles[of 5000] by auto
  have r: "reachable s" using reachable_run[OF reachable.reach_init s(1)] .
  have t: "tasks s 5000 = None" using s(2) by (simp add: idle_def)
  have q: "5000 \<le> dailyCount (resetDailyIfNeeded day0 (gov s))"
    using s(2) by (simp add: idle_def resetDailyIfNeeded_def)
  from quota_exceeded_atomic[OF r t q, of rq0 "t0 + 5000500" "t0 + 5000500"]
  obtain s1 where s1: "step (Invoke 5000 rq0 day0 (t0 + 5000500) (t0 + 5000500)) s = Some s1" "gov s1 = gov s"
    "clock s1 = clock s" "log s1 = log s @ [QuotaError 5000]"
    "\<forall>es s2. run es s1 = Some s2 \<longrightarrow>
              result_of s2 5000 = Some (Rejected quota_message) \<and> trace 5000 (log s2) = [Quo]"
    by blast
  from s1(5) have "result_of s1 5000 = Some (Rejected quota_message) \<and> trace 5000 (log s1) = [Quo]"
    by (metis run.simps(1))
  with s(1) t q s1(1-4) show ?thesis by blast
qed

lemma idle_overshoot:
  assumes "idle 4998 s"
  shows "\<exists>s'. run overshoot s = Some s' \<and> dailyCount (gov s') = 5001 \<and> dailyResetDate (gov s') = day0"
proof -
  from assms have g: "gov s = \<lparr>dailyCount = 4998, dailyResetDate = day0, lastRequestTime = t0 + 4998000,
               inFlight = False, queue = []\<rparr>" and c: "clock s = t0 + 4998000"
    and t: "tasks s 4998 = None" "tasks s 4999 = None" "tasks s 5000 = None"
    by (simp_all add: idle_def time_of_def)
  show ?thesis using g c t
    by (simp add: overshoot_def model_defs t0_def)
qed

text \<open>
  C3. The counter passes 5000 within one day. After 4998 requests one request is
  admitted, and two more pass the test of the quota while it is in flight, when the
  counter is 4999; they are admitted later without a second test, and the counter is
  5001 on the same day. The claim that the counter is at most 5000 in every reachable
  state is false.
\<close>

theorem daily_cap_exceeded:
  "observe (dailyCount \<circ> gov) (cycles 4998 @ overshoot) = Some 5001 \<and>
   observe (dailyResetDate \<circ> gov) (cycles 4998 @ overshoot) = Some day0"
proof -
  obtain s where s: "run (cycles 4998) (init day0) = Some s" "idle 4998 s"
    using idle_cycles[of 4998] by auto
  obtain s' where s': "run overshoot s = Some s'" "dailyCount (gov s') = 5001"
    "dailyResetDate (gov s') = day0"
    using idle_overshoot[OF s(2)] by auto
  have r: "run (cycles 4998 @ overshoot) (init day0) = Some s'"
    using s(1) s'(1) by (simp add: run_append)
  show ?thesis
    using s'(2,3) by (simp add: observe_run[OF r])
qed

lemma idle_capped:
  assumes "idle 4999 s"
  shows "\<exists>s1 s2 s3. run capped s = Some s1 \<and> dailyCount (gov s1) = 5000 \<and>
           dailyResetDate (gov s1) = day0 \<and> result_of s1 5001 = Some (Rejected quota_message) \<and>
           tasks s1 5002 = None \<and>
           step first_of_day s1 = Some s2 \<and> dailyResetDate (gov s2) = day1 \<and>
           dailyCount (gov s2) = 0 \<and> pc_of s2 5002 = Some Queued \<and>
           run after_midnight s2 = Some s3 \<and> pc_of s3 5002 = Some Admitted \<and>
           dailyCount (gov s3) = 2 \<and> dailyResetDate (gov s3) = day1"
proof -
  from assms have g: "gov s = \<lparr>dailyCount = 4999, dailyResetDate = day0, lastRequestTime = t0 + 4999000,
               inFlight = False, queue = []\<rparr>" and c: "clock s = t0 + 4999000"
    and t: "tasks s 4999 = None" "tasks s 5000 = None" "tasks s 5001 = None" "tasks s 5002 = None"
    by (simp_all add: idle_def time_of_def)
  define s1 where "s1 = the (run capped s)"
  define s2 where "s2 = the (step first_of_day s1)"
  define s3 where "s3 = the (run after_midnight s2)"
  have r1: "run capped s = Some s1"
    unfolding s1_def using g c t by (simp add: capped_def model_defs t0_def)
  have f1: "dailyCount (gov s1) = 5000" "dailyResetDate (gov s1) = day0"
    "result_of s1 5001 = Some (Rejected quota_message)" "tasks s1 5002 = None"
    unfolding s1_def using g c t by (simp_all add: capped_def model_defs t0_def)
  have r2: "step first_of_day s1 = Some s2"
    unfolding s2_def s1_def using g c t
    by (simp add: capped_def first_of_day_def model_defs t0_def midnight_def day0_def day1_def)
  have f2: "dailyResetDate (gov s2) = day1" "dailyCount (gov s2) = 0" "pc_of s2 5002 = Some Queued"
    unfolding s2_def s1_def using g c t
    by (simp_all add: capped_def first_of_day_def model_defs t0_def midnight_def day0_def day1_def)
  have r3: "run after_midnight s2 = Some s3"
    unfolding s3_def s2_def s1_def using g c t
    by (simp add: capped_def first_of_day_def after_midnight_def model_defs t0_def midnight_def day0_def day1_def)
  have f3: "pc_of s3 5002 = Some Admitted" "dailyCount (gov s3) = 2" "dailyResetDate (gov s3) = day1"
    unfolding s3_def s2_def s1_def using g c t
    by (simp_all add: capped_def first_of_day_def after_midnight_def model_defs t0_def midnight_def day0_def day1_def)
  show ?thesis using r1 f1 r2 f2 r3 f3 by blast
qed

text \<open>
  C7, as the claim states it, fails. The quota is capped on the first day while the
  request 5000 waits in the queue. The first call of the next day, the request 5002,
  resets the counter to 0 and waits behind it; when the request 5002 is admitted the
  counter is 2, not 1.
\<close>

theorem first_acquire_counter_two:
  "observe (dailyCount \<circ> gov) (cycles 4999 @ capped) = Some 5000 \<and>
   observe (where_is 5001) (cycles 4999 @ capped) =
     Some (Some (Settled (Rejected quota_message))) \<and>
   observe (where_is 5002) (cycles 4999 @ capped) = Some None \<and>
   observe (dailyResetDate \<circ> gov) (cycles 4999 @ capped @ [first_of_day]) = Some day1 \<and>
   observe (dailyCount \<circ> gov) (cycles 4999 @ capped @ [first_of_day]) = Some 0 \<and>
   observe (where_is 5002) (cycles 4999 @ capped @ [first_of_day]) = Some (Some Queued) \<and>
   observe (where_is 5002) (cycles 4999 @ capped @ first_of_day # after_midnight) =
     Some (Some Admitted) \<and>
   observe (dailyCount \<circ> gov) (cycles 4999 @ capped @ first_of_day # after_midnight) = Some 2"
proof -
  obtain s where s: "run (cycles 4999) (init day0) = Some s" "idle 4999 s"
    using idle_cycles[of 4999] by auto
  from idle_capped[OF s(2)] obtain s1 s2 s3 where
    a: "run capped s = Some s1" "step first_of_day s1 = Some s2" "run after_midnight s2 = Some s3"
    and b: "dailyCount (gov s1) = 5000" "result_of s1 5001 = Some (Rejected quota_message)"
      "tasks s1 5002 = None" "dailyResetDate (gov s2) = day1" "dailyCount (gov s2) = 0"
      "pc_of s2 5002 = Some Queued" "pc_of s3 5002 = Some Admitted" "dailyCount (gov s3) = 2"
    by blast
  have r1: "run (cycles 4999 @ capped) (init day0) = Some s1"
    using s(1) a(1) by (simp add: run_append)
  have r2: "run (cycles 4999 @ capped @ [first_of_day]) (init day0) = Some s2"
    using s(1) a(1,2) by (simp add: run_append)
  have r3: "run (cycles 4999 @ capped @ first_of_day # after_midnight) (init day0) = Some s3"
    using s(1) a by (simp add: run_append)
  have p: "pc_of s1 5001 = Some (Settled (Rejected quota_message))"
    using b(2) by (auto simp: result_of_def split: option.splits pc.splits)
  show ?thesis
    using b p by (simp add: observe_run[OF r1] observe_run[OF r2] observe_run[OF r3] where_is_def)
qed

text \<open>
  C7, amended. A call of \<^verbatim>\<open>canliiRequest\<close> on a day that is not the stored one stores the
  new day and resets the counter before the test of the quota, so it is not rejected,
  whatever the counter was. When the flag is set the caller waits at the end of the
  queue and the counter is 0. When the flag is clear the caller is admitted: in the
  same step, and the counter is 1, when 500 ms have passed since the last admission;
  or else when its timer fires, the counter being 0 until then and 1 after a timer that
  fires next.
\<close>

theorem epoch_rollover:
  assumes "tasks s c = None" and "today \<noteq> dailyResetDate (gov s)"
    and "clock s \<le> now" and "now \<le> now'"
  shows "\<exists>s'. step (Invoke c rq today now now') s = Some s' \<and>
           dailyResetDate (gov s') = today \<and>
           (if inFlight (gov s)
            then pc_of s' c = Some Queued \<and> dailyCount (gov s') = 0 \<and>
                 queue (gov s') = queue (gov s) @ [c]
            else if 500 \<le> now - lastRequestTime (gov s)
            then pc_of s' c = Some Admitted \<and> dailyCount (gov s') = 1 \<and>
                 lastRequestTime (gov s') = now'
            else pc_of s' c = Some (Sleeping (lastRequestTime (gov s) + 500)) \<and>
                 dailyCount (gov s') = 0 \<and>
                 (\<forall>t s2. step (Timer c t) s' = Some s2 \<longrightarrow>
                    dailyCount (gov s2) = 1 \<and> pc_of s2 c = Some Admitted))"
  using assms
  by (auto simp: model_defs max_def pc_of_register split: if_splits)

theorem epoch_rollover_witness:
  "\<exists>s. run (cycles 5000) (init day0) = Some s \<and> dailyCount (gov s) = 5000 \<and>
       tasks s 5000 = None \<and> day1 \<noteq> dailyResetDate (gov s) \<and>
       clock s \<le> midnight + 100 \<and> \<not> inFlight (gov s) \<and>
       (\<exists>s'. step (Invoke 5000 rq0 day1 (midnight + 100) (midnight + 100)) s = Some s' \<and>
          dailyResetDate (gov s') = day1 \<and> pc_of s' 5000 = Some Admitted \<and>
          dailyCount (gov s') = 1)"
proof -
  obtain s where s: "run (cycles 5000) (init day0) = Some s" "idle 5000 s"
    using idle_cycles[of 5000] by auto
  have g: "gov s = \<lparr>dailyCount = 5000, dailyResetDate = day0,
             lastRequestTime = t0 + 5000000, inFlight = False, queue = []\<rparr>"
    and c: "clock s = t0 + 5000000" and t: "tasks s 5000 = None"
    using s(2) by (simp_all add: idle_def time_of_def)
  have d: "day1 \<noteq> dailyResetDate (gov s)"
    by (simp add: g day0_def day1_def)
  have k: "clock s \<le> midnight + 100"
    by (simp add: c midnight_def)
  have f: "\<not> inFlight (gov s)" "dailyCount (gov s) = 5000"
    "500 \<le> midnight + 100 - lastRequestTime (gov s)"
    by (simp_all add: g midnight_def)
  from epoch_rollover[OF t d k order_refl, of rq0]
  obtain s' where s': "step (Invoke 5000 rq0 day1 (midnight + 100) (midnight + 100)) s = Some s'"
    "dailyResetDate (gov s') = day1"
    and i: "if inFlight (gov s)
            then pc_of s' 5000 = Some Queued \<and> dailyCount (gov s') = 0 \<and>
                 queue (gov s') = queue (gov s) @ [5000]
            else if 500 \<le> midnight + 100 - lastRequestTime (gov s)
            then pc_of s' 5000 = Some Admitted \<and> dailyCount (gov s') = 1 \<and>
                 lastRequestTime (gov s') = midnight + 100
            else pc_of s' 5000 = Some (Sleeping (lastRequestTime (gov s) + 500)) \<and>
                 dailyCount (gov s') = 0 \<and>
                 (\<forall>t s2. step (Timer 5000 t) s' = Some s2 \<longrightarrow>
                    dailyCount (gov s2) = 1 \<and> pc_of s2 5000 = Some Admitted)"
    by blast
  from i f have "pc_of s' 5000 = Some Admitted \<and> dailyCount (gov s') = 1"
    by simp
  with s(1) t d k f s' show ?thesis by blast
qed

section \<open>A call in the window\<close>

text \<open>
  C1. Two invocations hold the token at once. In the run \<open>barging\<close> the request 2 is
  called after \<^verbatim>\<open>releaseSlot\<close> has cleared the flag for the request 0 and before the
  request 1, which \<^verbatim>\<open>releaseSlot\<close> has resolved, goes on. The log of the run: the request
  2 is admitted and calls \<^verbatim>\<open>fetch\<close>, then the request 1 is admitted and calls
  \<^verbatim>\<open>fetch\<close>, with no release in between; at the end both are at the \<^verbatim>\<open>await\<close> of
  \<^verbatim>\<open>fetch\<close>. The claim that at most one caller holds the token at every instant,
  this window included, is false.
\<close>

theorem two_requests_in_flight:
  "observe log barging =
     Some [Admission 0 (t0 + 1000), Fetch 0 u0, Release 0,
           Admission 2 (t0 + 1700), Fetch 2 u0, Admission 1 (t0 + 2200), Fetch 1 u0] \<and>
   observe (where_is 1) barging = Some (Some (Fetching u0)) \<and>
   observe (where_is 2) barging = Some (Some (Fetching u0))"
  by (simp add: observe_def where_is_def u0_def barging_def model_defs run_defs)

text \<open>
  C2. After the run \<open>two_waiters\<close> the requests 1 and 2 wait in the queue, in this
  order, and the request 3 has not been called. In the run \<open>overtaking\<close> the request 0
  is released, the request 3 is called in the window and is admitted, and the request 1
  is admitted after it; the request 2 still waits. The claim that the head of the queue
  is the next caller admitted, and that no caller who arrives later is admitted ahead of
  a caller in the queue, is false.
\<close>

theorem fresh_caller_overtakes:
  "observe (queue \<circ> gov) two_waiters = Some [1, 2] \<and>
   observe (where_is 3) two_waiters = Some None \<and>
   observe (admissions \<circ> log) (two_waiters @ overtaking) =
     Some [Admission 0 (t0 + 1000), Admission 3 (t0 + 1700), Admission 1 (t0 + 2200)] \<and>
   observe (where_is 2) (two_waiters @ overtaking) = Some (Some Queued)"
  by (simp add: observe_def where_is_def two_waiters_def overtaking_def admissions_def
        model_defs run_defs)

text \<open>
  C6. In the run \<open>close_admissions\<close> the request 2, called in the window, and the request
  1 are admitted one after the other, and the same time is stored in
  \<^verbatim>\<open>lastRequestTime\<close> for both. The claim that two consecutive admissions are 500 ms
  apart at least is false.
\<close>

theorem admissions_not_spaced:
  "observe (admissions \<circ> log) close_admissions =
     Some [Admission 0 (t0 + 1000), Admission 2 (t0 + 1500), Admission 1 (t0 + 1500)] \<and>
   observe (spaced \<circ> map stamp \<circ> admissions \<circ> log) close_admissions = Some False"
  by (simp add: observe_def close_admissions_def admissions_def model_defs run_defs)

section \<open>Runs with no call in the window: exclusion, spacing and order\<close>

text \<open>
  The three runs above have a call of \<^verbatim>\<open>canliiRequest\<close> in the window. In the runs that
  have none, one invocation at most holds the token (\<open>mutual_exclusion_orderly\<close>),
  consecutive admissions are 500 ms apart at least (\<open>spacing_orderly\<close>), and a caller
  who finds an invocation waiting does not get the token before it
  (\<open>no_overtaking_orderly\<close>).
\<close>

lemma excl_finish:
  assumes "queue_ok s" "excl s" "holds s c"
  shows "excl (canliiRequest_finally c r s)"
proof -
  from assms(3) obtain p where p: "pc_of s c = Some p" "holding p"
    by (auto simp: holds_pc)
  then have nq: "p \<noteq> Queued" by auto
  have only: "\<And>c'. busy s c' \<Longrightarrow> c' = c"
    using assms(2,3) by (auto simp: excl_def busy_def)
  have pcs: "\<And>c'. pc_of (canliiRequest_finally c r s) c' =
     (if c' = c then Some (Settled r)
      else if queue (gov s) \<noteq> [] \<and> c' = hd (queue (gov s)) then Some Granted else pc_of s c')"
    using pc_of_finish[OF assms(1) p(1) nq] .
  have nb: "\<And>c'. c' \<noteq> c \<Longrightarrow> \<not> holds s c' \<and> pc_of s c' \<noteq> Some Granted"
    using only by (auto simp: busy_def)
  have h: "\<And>c'. \<not> holds (canliiRequest_finally c r s) c'"
    using nb by (auto simp: holds_pc pcs split: if_splits)
  have b: "\<And>c'. busy (canliiRequest_finally c r s) c' \<Longrightarrow> queue (gov s) \<noteq> [] \<and> c' = hd (queue (gov s))"
    using nb h by (auto simp: busy_def pcs split: if_splits)
  show ?thesis
    unfolding excl_def using h b by (auto simp: gov_finish_inFlight)
qed

lemma excl_same:
  assumes "excl s" "holds s c" "holding p" "\<And>c'. pc_of s' c' = (if c' = c then Some p else pc_of s c')"
    "inFlight (gov s') = inFlight (gov s)"
  shows "excl s'"
proof -
  have h: "\<And>c'. holds s' c' \<longleftrightarrow> holds s c'"
    using assms(2,3) by (auto simp: holds_pc assms(4))
  have b: "\<And>c'. busy s' c' \<longleftrightarrow> busy s c'"
    using assms(2,3) h by (auto simp: busy_def assms(4) holds_pc)
  show ?thesis using assms(1) unfolding excl_def h b assms(5) .
qed

lemma excl_enter:
  assumes "excl s" "\<And>c'. busy s c' \<Longrightarrow> c' = c" "holding p"
    "\<And>c'. pc_of s' c' = (if c' = c then Some p else pc_of s c')" "inFlight (gov s')"
  shows "excl s'"
proof -
  have h: "holds s' c" using assms(3) by (simp add: holds_pc assms(4))
  have b: "\<And>c'. busy s' c' \<Longrightarrow> c' = c"
    using assms(2) by (auto simp: busy_def holds_pc assms(4) split: if_splits)
  show ?thesis unfolding excl_def using h b assms(5) by blast
qed

lemma excl_idle:
  assumes "excl s" "\<not> holding p" "p \<noteq> Granted" "pc_of s c = None"
    "\<And>c'. pc_of s' c' = (if c' = c then Some p else pc_of s c')"
    "inFlight (gov s') = inFlight (gov s)"
  shows "excl s'"
proof -
  have h: "\<And>c'. holds s' c' \<longleftrightarrow> holds s c'"
    using assms(2,4) by (auto simp: holds_pc assms(5))
  have b: "\<And>c'. busy s' c' \<longleftrightarrow> busy s c'"
    using assms(2,3,4) h by (auto simp: busy_def assms(5))
  show ?thesis using assms(1) unfolding excl_def h b assms(6) .
qed

lemma excl_step:
  assumes "queue_ok s" "excl s" "step e s = Some s'" "\<not> (is_invoke e \<and> handing_over s)"
  shows "excl s'"
proof (cases e)
  case (Invoke c rq today now now')
  from assms(3) Invoke have fresh: "tasks s c = None"
    by (auto split: if_splits)
  then have pn: "pc_of s c = None" by simp
  from assms(4) Invoke have ng: "\<And>c'. pc_of s c' \<noteq> Some Granted"
    by (auto simp: handing_over_def)
  let ?g = "resetDailyIfNeeded today (gov s)"
  show ?thesis
  proof (cases "5000 \<le> dailyCount ?g")
    case True
    then have s': "s' = register c rq (Settled (Rejected quota_message))
                          (s\<lparr>gov := ?g, log := log s @ [QuotaError c]\<rparr>)"
      using assms(3) Invoke fresh by (simp add: acquireSlot_entry_def Let_def)
    show ?thesis
      by (rule excl_idle[OF assms(2) _ _ pn, of "Settled (Rejected quota_message)"])
         (simp_all add: s' pc_of_register pc_of_upd gov_register inFlight_reset)
  next
    case False
    note quota = this
    show ?thesis
    proof (cases "inFlight ?g")
      case True
      then have s': "s' = register c rq Queued (s\<lparr>gov := ?g\<lparr>queue := queue ?g @ [c]\<rparr>\<rparr>)"
        using assms(3) Invoke fresh quota by (simp add: acquireSlot_entry_def Let_def)
      show ?thesis
        by (rule excl_idle[OF assms(2) _ _ pn, of Queued])
           (simp_all add: s' pc_of_register pc_of_upd gov_register inFlight_reset)
    next
      case False
      then obtain p s1 where o: "occupy c now now' (s\<lparr>gov := ?g\<rparr>) = Some (p, s1)"
        and s': "s' = register c rq p s1"
        using assms(3) Invoke fresh quota
        by (auto simp: acquireSlot_entry_def Let_def split: option.splits)
      from occupy_holding[OF o] have f: "inFlight (gov s1)" "holding p" "pc_of s1 = pc_of s"
        by (simp_all add: pc_of_upd)
      from False have "\<not> inFlight (gov s)" by (simp add: inFlight_reset)
      then have nh: "\<And>c'. \<not> holds s c'" using assms(2) by (simp add: excl_def)
      have none: "\<And>c'. busy s c' \<Longrightarrow> c' = c"
        using nh ng by (simp add: busy_def)
      show ?thesis
        by (rule excl_enter[OF assms(2) none f(2)])
           (simp_all add: s' pc_of_register gov_register f)
    qed
  qed
next
  case (Resume c now now')
  from assms(3) Resume obtain p s1 where g: "pc_of s c = Some Granted"
    and o: "occupy c now now' s = Some (p, s1)" and s': "s' = set_pc c p s1"
    by (auto split: if_splits option.splits)
  from occupy_holding[OF o] have f: "inFlight (gov s1)" "holding p" "pc_of s1 = pc_of s"
    by simp_all
  have t: "tasks s1 c \<noteq> None"
    using g f(3) by (metis option.distinct(1) pc_of_eq_None)
  have only: "\<And>c'. busy s c' \<Longrightarrow> c' = c"
    using assms(2) g by (auto simp: excl_def busy_def)
  show ?thesis
    by (rule excl_enter[OF assms(2) only f(2)])
       (simp_all add: s' pc_of_set_pc gov_set_pc f t)
next
  case (Timer c t)
  from assms(3) Timer obtain d where g: "pc_of s c = Some (Sleeping d)"
    and s': "s' = set_pc c Admitted
                    (s\<lparr>gov := acquireSlot_admit t (gov s), clock := t, log := log s @ [Admission c t]\<rparr>)"
    by (auto split: if_splits option.splits pc.splits)
  have h: "holds s c" using g by (simp add: holds_pc)
  have t: "tasks s c \<noteq> None"
    using g by (metis option.distinct(1) pc_of_eq_None)
  show ?thesis
    by (rule excl_same[OF assms(2) h, of Admitted])
       (simp_all add: s' pc_of_set_pc gov_set_pc pc_of_upd t acquireSlot_admit_def)
next
  case (Proceed c q0)
  from assms(3) Proceed obtain tk where tk: "tasks s c = Some tk" "pc tk = Admitted"
    and s': "s' = set_pc c (Fetching (canliiRequest_url (request tk) q0))
                    (s\<lparr>log := log s @ [Fetch c (canliiRequest_url (request tk) q0)]\<rparr>)"
    by (auto simp: Let_def split: if_splits option.splits)
  have h: "holds s c" using tk by (simp add: holds_pc)
  show ?thesis
    by (rule excl_same[OF assms(2) h, of "Fetching (canliiRequest_url (request tk) q0)"])
       (simp_all add: s' pc_of_set_pc gov_set_pc pc_of_upd tk)
next
  case (Response c st)
  from assms(3) Response obtain u where g: "pc_of s c = Some (Fetching u)"
    and s': "s' = set_pc c (if \<not> ok_status st then ReadingText st else ReadingJson) s"
    by (auto split: if_splits option.splits pc.splits)
  have h: "holds s c" using g by (simp add: holds_pc)
  have t: "tasks s c \<noteq> None"
    using g by (metis option.distinct(1) pc_of_eq_None)
  show ?thesis
    by (rule excl_same[OF assms(2) h, of "if \<not> ok_status st then ReadingText st else ReadingJson"])
       (simp_all add: s' pc_of_set_pc gov_set_pc t)
next
  case (FetchError c m)
  then show ?thesis using assms(1,2,3)
    by (auto simp: holds_pc split: option.splits pc.splits intro!: excl_finish)
next
  case (Text c b)
  then show ?thesis using assms(1,2,3)
    by (auto simp: holds_pc split: option.splits pc.splits intro!: excl_finish)
next
  case (TextError c m)
  then show ?thesis using assms(1,2,3)
    by (auto simp: holds_pc split: option.splits pc.splits intro!: excl_finish)
next
  case (Json c v)
  then show ?thesis using assms(1,2,3)
    by (auto simp: holds_pc split: option.splits pc.splits intro!: excl_finish)
next
  case (JsonError c m)
  then show ?thesis using assms(1,2,3)
    by (auto simp: holds_pc split: option.splits pc.splits intro!: excl_finish)
qed

lemma orderly_reachable: "orderly s \<Longrightarrow> reachable s"
  by (induction rule: orderly.induct) (auto intro: reachable.intros)

lemma excl_init: "excl (init d0)"
  by (simp add: excl_def busy_def holds_def init_def pc_of_def)

lemma orderly_excl: "orderly s \<Longrightarrow> excl s"
proof (induction rule: orderly.induct)
  case (orderly_init d0)
  show ?case by (rule excl_init)
next
  case (orderly_step s e s')
  from orderly_step.hyps(1) have "queue_ok s"
    by (intro reachable_queue_ok orderly_reachable)
  then show ?case using orderly_step.IH orderly_step.hyps(2,3) by (rule excl_step)
qed

text \<open>
  In a run with no call in the window, one invocation at most holds the token.
\<close>

lemma mutual_exclusion_orderly:
  assumes "orderly s" "holds s c" "holds s c'"
  shows "c = c'"
  using orderly_excl[OF assms(1)] assms(2,3) by (auto simp: excl_def busy_def)

lemma spaced_snoc: "spaced (ts @ [t]) \<longleftrightarrow> spaced ts \<and> (ts = [] \<or> 500 \<le> t - last ts)"
  by (induction ts rule: spaced.induct) auto

lemma admissions_snoc:
  "admissions (l @ [a]) = admissions l @ (if kind_of a = Adm then [a] else [])"
  by (simp add: admissions_def)

lemma occupy_pacing:
  "occupy c now now' s = Some (p, s1) \<Longrightarrow>
     (p = Sleeping (lastRequestTime (gov s) + 500) \<and> log s1 = log s \<and>
      lastRequestTime (gov s1) = lastRequestTime (gov s)) \<or>
     (p = Admitted \<and> log s1 = log s @ [Admission c now'] \<and>
      lastRequestTime (gov s1) = now' \<and> lastRequestTime (gov s) + 500 \<le> now')"
  by (auto simp: occupy_def acquireSlot_take_def acquireSlot_admit_def Let_def max_def split: if_splits)

lemma pacing_admit:
  assumes "pacing s" "lastRequestTime (gov s) + 500 \<le> t"
    "log s' = log s @ [Admission c t]" "lastRequestTime (gov s') = t"
    "\<And>c' d. pc_of s' c' \<noteq> Some (Sleeping d)"
  shows "pacing s'"
proof (cases "admissions (log s) = []")
  case True
  then show ?thesis using assms(3,4,5)
    by (simp add: pacing_def admissions_snoc)
next
  case False
  then have "last (map stamp (admissions (log s))) = lastRequestTime (gov s)"
    using assms(1) by (simp add: pacing_def last_map)
  then show ?thesis using assms False
    by (simp add: pacing_def admissions_snoc spaced_snoc)
qed

lemma pacing_keep:
  assumes "pacing s" "admissions (log s') = admissions (log s)"
    "lastRequestTime (gov s') = lastRequestTime (gov s)"
    "\<And>c' d. pc_of s' c' = Some (Sleeping d) \<Longrightarrow>
        pc_of s c' = Some (Sleeping d) \<or> d = lastRequestTime (gov s) + 500"
  shows "pacing s'"
  using assms unfolding pacing_def by (metis order_refl)

lemma pacing_finish:
  assumes "queue_ok s" "pacing s" "pc_of s c = Some p" "p \<noteq> Queued"
  shows "pacing (canliiRequest_finally c r s)"
  by (rule pacing_keep[OF assms(2)])
     (auto simp: log_finish admissions_snoc lastRequestTime_finish
                 pc_of_finish[OF assms(1,3,4)] split: if_splits)

lemma pacing_step:
  assumes "queue_ok s" "excl s" "pacing s" "step e s = Some s'"
    "\<not> (is_invoke e \<and> handing_over s)"
  shows "pacing s'"
proof (cases e)
  case (Invoke c rq today now now')
  from assms(4) Invoke have fresh: "tasks s c = None"
    by (auto split: if_splits)
  from assms(5) Invoke have ng: "\<And>c'. pc_of s c' \<noteq> Some Granted"
    by (auto simp: handing_over_def)
  let ?g = "resetDailyIfNeeded today (gov s)"
  have lg: "lastRequestTime ?g = lastRequestTime (gov s)"
    by (simp add: resetDailyIfNeeded_def)
  show ?thesis
  proof (cases "5000 \<le> dailyCount ?g")
    case True
    then have s': "s' = register c rq (Settled (Rejected quota_message))
                          (s\<lparr>gov := ?g, log := log s @ [QuotaError c]\<rparr>)"
      using assms(4) Invoke fresh by (simp add: acquireSlot_entry_def Let_def)
    show ?thesis
      by (rule pacing_keep[OF assms(3)])
         (auto simp: s' pc_of_register pc_of_upd gov_register log_register admissions_snoc lg
               split: if_splits)
  next
    case False
    note quota = this
    show ?thesis
    proof (cases "inFlight ?g")
      case True
      then have s': "s' = register c rq Queued (s\<lparr>gov := ?g\<lparr>queue := queue ?g @ [c]\<rparr>\<rparr>)"
        using assms(4) Invoke fresh quota by (simp add: acquireSlot_entry_def Let_def)
      show ?thesis
        by (rule pacing_keep[OF assms(3)])
           (auto simp: s' pc_of_register pc_of_upd gov_register log_register lg split: if_splits)
    next
      case False
      then obtain p s1 where o: "occupy c now now' (s\<lparr>gov := ?g\<rparr>) = Some (p, s1)"
        and s': "s' = register c rq p s1"
        using assms(4) Invoke fresh quota
        by (auto simp: acquireSlot_entry_def Let_def split: option.splits)
      from occupy_holding[OF o] have f: "pc_of s1 = pc_of s"
        by (simp add: pc_of_upd)
      from False have "\<not> inFlight (gov s)" by (simp add: inFlight_reset)
      then have nh: "\<And>c'. \<not> holds s c'" using assms(2) by (simp add: excl_def)
      have ns: "\<And>c' d. pc_of s c' \<noteq> Some (Sleeping d)"
      proof
        fix c' d assume "pc_of s c' = Some (Sleeping d)"
        then have "holds s c'" by (simp add: holds_pc)
        then show False using nh by simp
      qed
      from occupy_pacing[OF o]
      have "(p = Sleeping (lastRequestTime (gov s) + 500) \<and> log s1 = log s \<and>
              lastRequestTime (gov s1) = lastRequestTime (gov s)) \<or>
            (p = Admitted \<and> log s1 = log s @ [Admission c now'] \<and>
              lastRequestTime (gov s1) = now' \<and> lastRequestTime (gov s) + 500 \<le> now')"
        by (simp add: lg)
      then show ?thesis
      proof
        assume a: "p = Sleeping (lastRequestTime (gov s) + 500) \<and> log s1 = log s \<and>
              lastRequestTime (gov s1) = lastRequestTime (gov s)"
        show ?thesis
          by (rule pacing_keep[OF assms(3)])
             (use a in \<open>auto simp: s' pc_of_register gov_register log_register f split: if_splits\<close>)
      next
        assume a: "p = Admitted \<and> log s1 = log s @ [Admission c now'] \<and>
              lastRequestTime (gov s1) = now' \<and> lastRequestTime (gov s) + 500 \<le> now'"
        show ?thesis
          by (rule pacing_admit[OF assms(3), of now' _ c])
             (use a ns in \<open>auto simp: s' pc_of_register gov_register log_register f split: if_splits\<close>)
      qed
    qed
  qed
next
  case (Resume c now now')
  from assms(4) Resume obtain p s1 where g: "pc_of s c = Some Granted"
    and o: "occupy c now now' s = Some (p, s1)" and s': "s' = set_pc c p s1"
    by (auto split: if_splits option.splits)
  from occupy_holding[OF o] have f: "pc_of s1 = pc_of s"
    by simp
  have only: "\<And>c'. busy s c' \<Longrightarrow> c' = c"
    using assms(2) g by (auto simp: excl_def busy_def)
  have ns: "\<And>c' d. pc_of s c' \<noteq> Some (Sleeping d)"
  proof
    fix c' d assume sl: "pc_of s c' = Some (Sleeping d)"
    then have "busy s c'" by (simp add: busy_def holds_pc)
    then show False using only g sl by auto
  qed
  from occupy_pacing[OF o] show ?thesis
  proof
    assume a: "p = Sleeping (lastRequestTime (gov s) + 500) \<and> log s1 = log s \<and>
          lastRequestTime (gov s1) = lastRequestTime (gov s)"
    show ?thesis
      by (rule pacing_keep[OF assms(3)])
         (use a in \<open>auto simp: s' pc_of_set_pc gov_set_pc log_set_pc f split: if_splits\<close>)
  next
    assume a: "p = Admitted \<and> log s1 = log s @ [Admission c now'] \<and>
          lastRequestTime (gov s1) = now' \<and> lastRequestTime (gov s) + 500 \<le> now'"
    show ?thesis
      by (rule pacing_admit[OF assms(3), of now' _ c])
         (use a ns in \<open>auto simp: s' pc_of_set_pc gov_set_pc log_set_pc f split: if_splits\<close>)
  qed
next
  case (Timer c t)
  from assms(4) Timer obtain d where g: "pc_of s c = Some (Sleeping d)" and td: "d \<le> t"
    and s': "s' = set_pc c Admitted
                    (s\<lparr>gov := acquireSlot_admit t (gov s), clock := t, log := log s @ [Admission c t]\<rparr>)"
    by (auto split: if_splits option.splits pc.splits)
  have only: "\<And>c'. busy s c' \<Longrightarrow> c' = c"
    using assms(2) g by (auto simp: excl_def busy_def holds_pc)
  have ns: "\<And>c' d'. c' \<noteq> c \<Longrightarrow> pc_of s c' \<noteq> Some (Sleeping d')"
  proof
    fix c' d' assume "c' \<noteq> c" and sl: "pc_of s c' = Some (Sleeping d')"
    then have "busy s c'" by (simp add: busy_def holds_pc)
    then show False using only \<open>c' \<noteq> c\<close> by auto
  qed
  have "lastRequestTime (gov s) + 500 \<le> d"
    using assms(3) g unfolding pacing_def by blast
  then have le: "lastRequestTime (gov s) + 500 \<le> t"
    using td by simp
  have tk: "tasks s c \<noteq> None"
    using g by (metis option.distinct(1) pc_of_eq_None)
  show ?thesis
    by (rule pacing_admit[OF assms(3) le, of _ c])
       (use ns tk in \<open>auto simp: s' pc_of_set_pc gov_set_pc log_set_pc pc_of_upd acquireSlot_admit_def split: if_splits\<close>)
next
  case (Proceed c q0)
  from assms(4) Proceed obtain tk where tk: "tasks s c = Some tk" "pc tk = Admitted"
    and s': "s' = set_pc c (Fetching (canliiRequest_url (request tk) q0))
                    (s\<lparr>log := log s @ [Fetch c (canliiRequest_url (request tk) q0)]\<rparr>)"
    by (auto simp: Let_def split: if_splits option.splits)
  show ?thesis
    by (rule pacing_keep[OF assms(3)])
       (auto simp: s' pc_of_set_pc gov_set_pc log_set_pc pc_of_upd admissions_snoc split: if_splits)
next
  case (Response c st)
  from assms(4) Response obtain u where g: "pc_of s c = Some (Fetching u)"
    and s': "s' = set_pc c (if \<not> ok_status st then ReadingText st else ReadingJson) s"
    by (auto split: if_splits option.splits pc.splits)
  show ?thesis
    by (rule pacing_keep[OF assms(3)])
       (auto simp: s' pc_of_set_pc gov_set_pc log_set_pc split: if_splits)
next
  case (FetchError c m)
  then show ?thesis using assms(1,3,4)
    by (auto split: option.splits pc.splits intro: pacing_finish)
next
  case (Text c b)
  then show ?thesis using assms(1,3,4)
    by (auto split: option.splits pc.splits intro: pacing_finish)
next
  case (TextError c m)
  then show ?thesis using assms(1,3,4)
    by (auto split: option.splits pc.splits intro: pacing_finish)
next
  case (Json c v)
  then show ?thesis using assms(1,3,4)
    by (auto split: option.splits pc.splits intro: pacing_finish)
next
  case (JsonError c m)
  then show ?thesis using assms(1,3,4)
    by (auto split: option.splits pc.splits intro: pacing_finish)
qed

lemma pacing_init: "pacing (init d0)"
  by (simp add: pacing_def init_def admissions_def pc_of_def)

lemma orderly_pacing: "orderly s \<Longrightarrow> pacing s"
proof (induction rule: orderly.induct)
  case (orderly_init d0)
  show ?case by (rule pacing_init)
next
  case (orderly_step s e s')
  from orderly_step.hyps(1) have "queue_ok s"
    by (intro reachable_queue_ok orderly_reachable)
  moreover have "excl s" using orderly_step.hyps(1) by (rule orderly_excl)
  ultimately show ?case using orderly_step.IH orderly_step.hyps(2,3) by (rule pacing_step)
qed

text \<open>
  In a run with no call in the window, consecutive admissions are 500 ms apart at
  least.
\<close>

lemma spacing_orderly: "orderly s \<Longrightarrow> spaced (map stamp (admissions (log s)))"
  using orderly_pacing by (auto simp: pacing_def)

lemma release_grants_head:
  assumes "queue_ok s" "step e s = Some s'" "holds s c" "pc_of s' c = Some (Settled r)"
    "queue (gov s) = w # ws"
  shows "pc_of s' w = Some Granted \<and> queue (gov s') = ws"
proof -
  have s': "s' = canliiRequest_finally c r s" using exit_step[OF assms(1,2,3,4)] .
  from assms(3) obtain p where p: "pc_of s c = Some p" "holding p"
    by (auto simp: holds_pc)
  then have nq: "p \<noteq> Queued" by auto
  have "pc_of s w = Some Queued"
    using assms(1,5) by (simp add: queue_ok_def)
  then have "w \<noteq> c" using p nq by auto
  then show ?thesis
    using assms(5) by (simp add: s' pc_of_finish[OF assms(1) p(1) nq] queue_finish)
qed

lemma busy_after_step:
  assumes "queue_ok s" "step e s = Some s'" "busy s c" "c \<noteq> subject e"
  shows "busy s' c"
proof -
  from assms(3) have "pc_of s c \<noteq> Some Queued"
    by (auto simp: busy_def holds_pc)
  with step_frame[OF assms(1,2,4)] have "pc_of s' c = pc_of s c" by auto
  then show ?thesis using assms(3) by (simp add: busy_def holds_pc)
qed

lemma served_finish:
  assumes "queue_ok s" "holds s c"
  shows "served (canliiRequest_finally c r s)"
proof (cases "queue (gov s)")
  case Nil
  then show ?thesis by (simp add: served_def queue_finish)
next
  case (Cons w ws)
  from assms(2) obtain p where p: "pc_of s c = Some p" "holding p"
    by (auto simp: holds_pc)
  then have nq: "p \<noteq> Queued" by auto
  have "pc_of s w = Some Queued"
    using assms(1) Cons by (simp add: queue_ok_def)
  then have "w \<noteq> c" using p nq by auto
  then have "pc_of (canliiRequest_finally c r s) w = Some Granted"
    using Cons by (simp add: pc_of_finish[OF assms(1) p(1) nq])
  then have "busy (canliiRequest_finally c r s) w" by (simp add: busy_def)
  then show ?thesis unfolding served_def by blast
qed

lemma served_busy:
  assumes "busy s' c"
  shows "served s'"
  using assms unfolding served_def by blast

lemma served_step:
  assumes "queue_ok s" "excl s" "served s" "step e s = Some s'"
  shows "served s'"
proof (cases e)
  case (Invoke c rq today now now')
  from assms(4) Invoke have fresh: "tasks s c = None"
    by (auto split: if_splits)
  show ?thesis
  proof (cases "\<exists>c'. busy s c'")
    case True
    then obtain c' where b: "busy s c'" by blast
    then have "tasks s c' \<noteq> None" by (auto simp: busy_def holds_pc dest: pc_of_SomeD)
    then have "c' \<noteq> subject e" using fresh Invoke by auto
    from busy_after_step[OF assms(1,4) b this] show ?thesis by (rule served_busy)
  next
    case False
    then have q: "queue (gov s) = []" using assms(3) by (auto simp: served_def)
    have "\<not> inFlight (gov s)" using False assms(2) by (auto simp: excl_def busy_def)
    then have "(\<exists>p s1. occupy c now now' (s\<lparr>gov := resetDailyIfNeeded today (gov s)\<rparr>) = Some (p, s1) \<and>
                 s' = register c rq p s1) \<or>
        s' = register c rq (Settled (Rejected quota_message))
               (s\<lparr>gov := resetDailyIfNeeded today (gov s), log := log s @ [QuotaError c]\<rparr>)"
      using assms(4) Invoke fresh
      by (auto simp: acquireSlot_entry_def Let_def inFlight_reset split: if_splits option.splits)
    then have "queue (gov s') = []" using q
      by (auto simp: gov_register resetDailyIfNeeded_def dest!: occupy_effect)
    then show ?thesis by (simp add: served_def)
  qed
next
  case (Resume c now now')
  then have "busy s' c" using assms(4)
    by (auto simp: busy_def holds_pc pc_of_set_pc split: if_splits option.splits
             dest!: occupy_holding dest: pc_of_SomeD)
  then show ?thesis by (rule served_busy)
next
  case (Timer c t)
  then have "busy s' c" using assms(4)
    by (auto simp: busy_def holds_pc pc_of_set_pc split: if_splits option.splits pc.splits
             dest: pc_of_SomeD)
  then show ?thesis by (rule served_busy)
next
  case (Proceed c q0)
  then have "busy s' c" using assms(4)
    by (auto simp: busy_def holds_pc pc_of_set_pc Let_def split: if_splits option.splits)
  then show ?thesis by (rule served_busy)
next
  case (Response c st)
  then have "busy s' c" using assms(4)
    by (auto simp: busy_def holds_pc pc_of_set_pc split: if_splits option.splits pc.splits
             dest: pc_of_SomeD)
  then show ?thesis by (rule served_busy)
next
  case (FetchError c m)
  then show ?thesis using assms(1,4)
    by (auto simp: holds_pc split: option.splits pc.splits intro!: served_finish)
next
  case (Text c b)
  then show ?thesis using assms(1,4)
    by (auto simp: holds_pc split: option.splits pc.splits intro!: served_finish)
next
  case (TextError c m)
  then show ?thesis using assms(1,4)
    by (auto simp: holds_pc split: option.splits pc.splits intro!: served_finish)
next
  case (Json c v)
  then show ?thesis using assms(1,4)
    by (auto simp: holds_pc split: option.splits pc.splits intro!: served_finish)
next
  case (JsonError c m)
  then show ?thesis using assms(1,4)
    by (auto simp: holds_pc split: option.splits pc.splits intro!: served_finish)
qed

lemma orderly_served: "orderly s \<Longrightarrow> served s"
proof (induction rule: orderly.induct)
  case (orderly_init d0)
  show ?case by (simp add: served_def init_def)
next
  case (orderly_step s e s')
  from orderly_step.hyps(1) have "queue_ok s"
    by (intro reachable_queue_ok orderly_reachable)
  moreover have "excl s" using orderly_step.hyps(1) by (rule orderly_excl)
  ultimately show ?case using orderly_step.IH orderly_step.hyps(2) by (rule served_step)
qed

text \<open>
  In a run with no call in the window, a call that finds an invocation waiting in the
  queue does not get the token: it is rejected or waits at the end of the queue. So the
  head of the queue, which \<open>release_grants_head\<close> shows is the one resolved, is the next
  invocation admitted.
\<close>

lemma no_overtaking_orderly:
  assumes "orderly s" "\<not> handing_over s" "queue (gov s) \<noteq> []"
    "step (Invoke c rq today now now') s = Some s'"
  shows "(pc_of s' c = Some Queued \<and> queue (gov s') = queue (gov s) @ [c]) \<or>
         pc_of s' c = Some (Settled (Rejected quota_message))"
proof -
  from orderly_served[OF assms(1)] assms(3) obtain c' where "busy s c'"
    by (auto simp: served_def)
  then have "holds s c'" using assms(2) by (auto simp: busy_def handing_over_def)
  then have "inFlight (gov s)" using orderly_excl[OF assms(1)] by (auto simp: excl_def)
  then show ?thesis using assms(4)
    by (auto simp: acquireSlot_entry_def Let_def inFlight_reset pc_of_register gov_register
                   resetDailyIfNeeded_def split: if_splits)
qed

end
